theory Spec2Isabelle
  imports Complex_Main "HOL-Library.Multiset"
begin

text \<open>
  A shallow embedding of the analytical core of chargedrift: the recurring-charge
  detector, the price-drift calculator, the CSV parser and the merchant resolver. The
  first four sections translate the source functions, keeping their names; each section
  ends with the notions the specification uses to talk about them. The last four
  sections prove the claims of the specification about these functions.
\<close>

section \<open>Recurring-charge detection (recurring-detector.ts)\<close>

text \<open>
  JavaScript numbers are modelled as real numbers: the rounding, overflow and NaN of
  binary64 arithmetic are outside the model, except where a guard of the model says
  otherwise (a division by zero is written out wherever the source can reach one).
  A transaction's \<open>date\<close> is an ISO calendar date; it is represented by its day number,
  so that \<open>differenceInDays (parseISO a) (parseISO b)\<close> is the difference of the day
  numbers and \<open>new Date(a).getTime()\<close> is monotone in the day number.
\<close>

datatype RecurringFrequency = weekly | biweekly | monthly | quarterly | yearly

record Transaction =
  tx_id :: string
  merchant_id :: "string option"
  amount :: real
  date :: int
  pending :: bool

record TransactionGroup =
  g_merchantId :: string
  transactions :: "Transaction list"
  amounts :: "real list"
  dates :: "int list"

record FrequencyPattern =
  pat_frequency :: RecurringFrequency
  minDays :: real
  maxDays :: real
  weight :: real

definition FREQUENCY_PATTERNS :: "FrequencyPattern list" where
  "FREQUENCY_PATTERNS =
    [ \<lparr>pat_frequency = weekly, minDays = 5, maxDays = 9, weight = 1\<rparr>,
      \<lparr>pat_frequency = biweekly, minDays = 12, maxDays = 16, weight = 1\<rparr>,
      \<lparr>pat_frequency = monthly, minDays = 27, maxDays = 35, weight = 12 / 10\<rparr>,
      \<lparr>pat_frequency = quarterly, minDays = 85, maxDays = 100, weight = 8 / 10\<rparr>,
      \<lparr>pat_frequency = yearly, minDays = 355, maxDays = 375, weight = 6 / 10\<rparr> ]"

definition MIN_TRANSACTIONS :: nat where
  "MIN_TRANSACTIONS = 2"

definition MIN_CONFIDENCE :: real where
  "MIN_CONFIDENCE = 5 / 10"

definition AMOUNT_TOLERANCE :: real where
  "AMOUNT_TOLERANCE = 15 / 100"

text \<open>The loop \<open>for (i = 1; i < sortedDates.length; i++) intervals.push(...)\<close>.\<close>

fun intervals_of :: "int list \<Rightarrow> int list" where
  "intervals_of (a # b # ds) = (b - a) # intervals_of (b # ds)"
| "intervals_of ds = []"

definition average :: "real list \<Rightarrow> real" where
  "average xs = sum_list xs / real (length xs)"

definition matchingIntervals :: "FrequencyPattern \<Rightarrow> int list \<Rightarrow> nat" where
  "matchingIntervals pattern intervals =
     length (filter (\<lambda>i. minDays pattern \<le> real_of_int i \<and> real_of_int i \<le> maxDays pattern) intervals)"

definition pattern_score :: "FrequencyPattern \<Rightarrow> int list \<Rightarrow> real" where
  "pattern_score pattern intervals =
     (real (matchingIntervals pattern intervals) / real (length intervals)) * weight pattern"

text \<open>The body of \<open>for (const pattern of FREQUENCY_PATTERNS)\<close>, on the pair
  \<open>(bestMatch, bestScore)\<close>.\<close>

definition pattern_step ::
  "real \<Rightarrow> int list \<Rightarrow> FrequencyPattern option \<times> real \<Rightarrow> FrequencyPattern
     \<Rightarrow> FrequencyPattern option \<times> real" where
  "pattern_step avgInterval intervals best pattern =
     (if minDays pattern \<le> avgInterval \<and> avgInterval \<le> maxDays pattern
      then (let score = pattern_score pattern intervals
            in if snd best < score then (Some pattern, score) else best)
      else best)"

definition detectFrequency :: "int list \<Rightarrow> (RecurringFrequency \<times> real) option" where
  "detectFrequency ds =
     (if length ds < MIN_TRANSACTIONS then None
      else let sortedDates = sort ds;
               intervals = intervals_of sortedDates
           in if length intervals = 0 then None
              else let avgInterval = average (map real_of_int intervals);
                       best = foldl (pattern_step avgInterval intervals) (None, 0) FREQUENCY_PATTERNS
                   in (case fst best of
                         None \<Rightarrow> None
                       | Some bestMatch \<Rightarrow>
                           if snd best < MIN_CONFIDENCE then None
                           else Some (pat_frequency bestMatch, min (snd best) 1)))"

text \<open>
  \<open>Math.abs(amount - avgAmount) / avgAmount <= AMOUNT_TOLERANCE\<close>. When \<open>avgAmount\<close>
  is 0 the quotient is \<open>Infinity\<close> or \<open>NaN\<close> in JavaScript and the comparison is false;
  HOL's \<open>x / 0 = 0\<close> would make it true, so the case is written out. The divisor is the
  signed mean, as in the source: nothing takes its absolute value.

  The comparison is made on real numbers. The source makes it on the binary64 roundings
  of the sum, of the mean and of the quotient, and against the binary64 number nearest
  to 0.15, so that the two can decide differently for an amount whose relative distance
  to the mean is within rounding distance of 15 percent. The theorems below use the
  test away from that boundary: on amounts about 6 percent from their mean, on a quotient
  that is negative, and through the sign of the confidence boost only.
\<close>

definition within_tolerance :: "real \<Rightarrow> real \<Rightarrow> bool" where
  "within_tolerance avgAmount a =
     (avgAmount \<noteq> 0 \<and> \<bar>a - avgAmount\<bar> / avgAmount \<le> AMOUNT_TOLERANCE)"

definition checkAmountConsistency :: "real list \<Rightarrow> bool \<times> real" where
  "checkAmountConsistency as =
     (if length as < 2 then (False, 0)
      else let avgAmount = average as;
               consistentCount = length (filter (within_tolerance avgAmount) as);
               ratio = real consistentCount / real (length as)
           in (7 / 10 \<le> ratio, ratio * (2 / 10)))"

text \<open>
  \<open>groupByMerchant\<close> fills a \<open>Map\<close>, which iterates in insertion order: an association
  list, a new key appended at the end, an existing entry updated in place.
\<close>

fun group_push :: "string \<Rightarrow> Transaction \<Rightarrow> (string \<times> TransactionGroup) list
    \<Rightarrow> (string \<times> TransactionGroup) list" where
  "group_push k tx [] =
     [(k, \<lparr>g_merchantId = k, transactions = [tx], amounts = [amount tx], dates = [date tx]\<rparr>)]"
| "group_push k tx ((k', g) # gs) =
     (if k' = k
      then (k', g\<lparr>transactions := transactions g @ [tx],
                  amounts := amounts g @ [amount tx],
                  dates := dates g @ [date tx]\<rparr>) # gs
      else (k', g) # group_push k tx gs)"

text \<open>\<open>if (!tx.merchant_id || tx.pending) continue\<close>: \<open>null\<close> and the empty string are
  both falsy.\<close>

definition group_step :: "(string \<times> TransactionGroup) list \<Rightarrow> Transaction
    \<Rightarrow> (string \<times> TransactionGroup) list" where
  "group_step groups tx =
     (case merchant_id tx of
        None \<Rightarrow> groups
      | Some k \<Rightarrow> if k = [] \<or> pending tx then groups else group_push k tx groups)"

definition groupByMerchant :: "Transaction list \<Rightarrow> (string \<times> TransactionGroup) list" where
  "groupByMerchant txs = foldl group_step [] txs"

record DetectedRecurring =
  merchantId :: string
  frequency :: RecurringFrequency
  confidence :: real
  firstAmount :: real
  currentAmount :: real
  firstDate :: int
  lastDate :: int
  transactionCount :: nat

text \<open>The body of the loop over \<open>groups.entries()\<close>: the candidates it pushes (none or one).\<close>

definition detect_group :: "string \<times> TransactionGroup \<Rightarrow> DetectedRecurring list" where
  "detect_group entry =
     (let merchantId = fst entry; group = snd entry
      in if length (transactions group) < MIN_TRANSACTIONS then []
         else (case detectFrequency (dates group) of
                 None \<Rightarrow> []
               | Some frequencyResult \<Rightarrow>
                   (let amountCheck = checkAmountConsistency (amounts group)
                    in if \<not> fst amountCheck then []
                       else let sortedDates = sort (dates group);
                                sortedTx = sort_key date (transactions group)
                            in [\<lparr>merchantId = merchantId,
                                  frequency = fst frequencyResult,
                                  confidence = min (snd frequencyResult + snd amountCheck) 1,
                                  firstAmount = amount (sortedTx ! 0),
                                  currentAmount = amount (sortedTx ! (length sortedTx - 1)),
                                  firstDate = sortedDates ! 0,
                                  lastDate = sortedDates ! (length sortedDates - 1),
                                  transactionCount = length (transactions group)\<rparr>])))"

definition detectRecurringCharges :: "Transaction list \<Rightarrow> DetectedRecurring list" where
  "detectRecurringCharges txs = concat (map detect_group (groupByMerchant txs))"

text \<open>A transaction of the model, built from its fields (not pending, with a merchant).\<close>

definition mkTx :: "string \<Rightarrow> string \<Rightarrow> real \<Rightarrow> int \<Rightarrow> Transaction" where
  "mkTx i m a d = \<lparr>tx_id = i, merchant_id = Some m, amount = a, date = d, pending = False\<rparr>"

subsection \<open>The notions of the specification of the detector\<close>

text \<open>The group of a merchant: its non-pending transactions, in input order.\<close>

definition group_of :: "string \<Rightarrow> Transaction list \<Rightarrow> Transaction list" where
  "group_of m txs = filter (\<lambda>t. merchant_id t = Some m \<and> \<not> pending t) txs"

text \<open>The consecutive-day intervals of a merchant's group, dates ascending.\<close>

definition group_intervals :: "string \<Rightarrow> Transaction list \<Rightarrow> int list" where
  "group_intervals m txs = intervals_of (sort (map date (group_of m txs)))"

definition in_bucket :: "FrequencyPattern \<Rightarrow> real \<Rightarrow> bool" where
  "in_bucket p x = (minDays p \<le> x \<and> x \<le> maxDays p)"

text \<open>The fraction of the intervals inside the bucket, times the bucket's weight.\<close>

definition bucket_score :: "FrequencyPattern \<Rightarrow> int list \<Rightarrow> real" where
  "bucket_score p ivs =
     real (length (filter (\<lambda>i. in_bucket p (real_of_int i)) ivs)) / real (length ivs) * weight p"



text \<open>What \<open>groupByMerchant\<close> maintains: an entry holds the group of its key.\<close>

definition group_ok :: "Transaction list \<Rightarrow> string \<times> TransactionGroup \<Rightarrow> bool" where
  "group_ok txs e =
     (fst e \<noteq> [] \<and> transactions (snd e) = group_of (fst e) txs \<and>
      amounts (snd e) = map amount (transactions (snd e)) \<and>
      dates (snd e) = map date (transactions (snd e)))"

definition groups_inv :: "Transaction list \<Rightarrow> (string \<times> TransactionGroup) list \<Rightarrow> bool" where
  "groups_inv txs gs =
     (distinct (map fst gs) \<and> (\<forall>e\<in>set gs. group_ok txs e) \<and>
      (\<forall>k. k \<notin> fst ` set gs \<longrightarrow> k \<noteq> [] \<longrightarrow> group_of k txs = []))"

section \<open>Price drift (price-drift.ts)\<close>

text \<open>
  \<open>Math.pow\<close> on finite numbers, for the positive exponents \<open>calculateDriftMetrics\<close>
  passes (\<open>12 / monthsTracked\<close> with \<open>monthsTracked > 0\<close>). \<open>None\<close> stands for \<open>NaN\<close>,
  the result for a negative base and an exponent that is not an integer.
\<close>

definition Math_pow :: "real \<Rightarrow> real \<Rightarrow> real option" where
  "Math_pow x y =
     (if 0 \<le> x then Some (x powr y)
      else if y = of_int \<lfloor>y\<rfloor> then Some (x ^ nat \<lfloor>y\<rfloor>)
      else None)"

record DriftMetrics =
  totalChange :: real
  percentChange :: real
  annualizedIncrease :: "real option"
  monthsTracked :: int

text \<open>
  \<open>differenceInMonths\<close> belongs to the date library, not to the repository: it is a
  parameter of the model, a function from two dates (later one first) to a number of
  whole months.
\<close>

definition calculateDriftMetrics ::
  "('d \<Rightarrow> 'd \<Rightarrow> int) \<Rightarrow> real \<Rightarrow> real \<Rightarrow> 'd \<Rightarrow> 'd \<Rightarrow> DriftMetrics" where
  "calculateDriftMetrics differenceInMonths firstAmt currentAmt firstDt lastDt =
     (let totalChange = currentAmt - firstAmt;
          percentChange = (if 0 < firstAmt
                           then ((currentAmt - firstAmt) / firstAmt) * 100
                           else 0);
          monthsTracked = differenceInMonths lastDt firstDt;
          annualizedIncrease =
            (if 0 < firstAmt \<and> 0 < monthsTracked
             then (let growthRatio = currentAmt / firstAmt
                   in map_option (\<lambda>p. (p - 1) * 100)
                        (Math_pow growthRatio (12 / real_of_int monthsTracked)))
             else Some 0)
      in \<lparr>totalChange = totalChange, percentChange = percentChange,
          annualizedIncrease = annualizedIncrease, monthsTracked = monthsTracked\<rparr>)"

record RecurringCharge =
  rc_id :: string
  rc_merchant_id :: string

record PriceChangeDetection =
  recurringChargeId :: string
  pc_merchantId :: string
  previousAmount :: real
  newAmount :: real
  changeAmount :: real
  changePercent :: real
  detectedAt :: int
  transactionId :: string

text \<open>The body of the loop of \<open>detectPriceChanges\<close> for one pair \<open>prev\<close>, \<open>curr\<close> (here \<open>prv\<close>, \<open>cur\<close>):
  the events it pushes (none or one).\<close>

definition price_step :: "RecurringCharge \<Rightarrow> Transaction \<Rightarrow> Transaction
    \<Rightarrow> PriceChangeDetection list" where
  "price_step recurringCharge prv cur =
     (let change = amount cur - amount prv;
          percentChange = (if 0 < amount prv then (change / amount prv) * 100 else 0)
      in if 1 < \<bar>percentChange\<bar>
         then [\<lparr>recurringChargeId = rc_id recurringCharge,
                 pc_merchantId = rc_merchant_id recurringCharge,
                 previousAmount = amount prv,
                 newAmount = amount cur,
                 changeAmount = change,
                 changePercent = percentChange,
                 detectedAt = date cur,
                 transactionId = tx_id cur\<rparr>]
         else [])"

text \<open>The loop \<open>for (i = 1; i < sortedTx.length; i++)\<close> over \<open>sortedTx[i - 1]\<close>,
  \<open>sortedTx[i]\<close>.\<close>

fun price_loop :: "RecurringCharge \<Rightarrow> Transaction list \<Rightarrow> PriceChangeDetection list" where
  "price_loop recurringCharge (prv # cur # rest) =
     price_step recurringCharge prv cur @ price_loop recurringCharge (cur # rest)"
| "price_loop recurringCharge sortedTx = []"

definition detectPriceChanges :: "Transaction list \<Rightarrow> RecurringCharge
    \<Rightarrow> PriceChangeDetection list" where
  "detectPriceChanges txs recurringCharge =
     (let sortedTx = sort_key date
            (filter (\<lambda>tx. merchant_id tx = Some (rc_merchant_id recurringCharge) \<and> \<not> pending tx) txs)
      in if length sortedTx < 2 then [] else price_loop recurringCharge sortedTx)"

subsection \<open>The notions of the specification of the drift calculator\<close>

text \<open>The percentage by which \<open>cur\<close> differs from \<open>prv\<close>; 0 when there is no positive
  previous amount to relate it to.\<close>

definition change_percent :: "real \<Rightarrow> real \<Rightarrow> real" where
  "change_percent prv cur = (if 0 < prv then (cur - prv) / prv * 100 else 0)"

definition price_event :: "RecurringCharge \<Rightarrow> Transaction \<times> Transaction \<Rightarrow> PriceChangeDetection" where
  "price_event rc pc =
     \<lparr>recurringChargeId = rc_id rc, pc_merchantId = rc_merchant_id rc,
      previousAmount = amount (fst pc), newAmount = amount (snd pc),
      changeAmount = amount (snd pc) - amount (fst pc),
      changePercent = change_percent (amount (fst pc)) (amount (snd pc)),
      detectedAt = date (snd pc), transactionId = tx_id (snd pc)\<rparr>"

text \<open>The adjacent pairs of a list, in order.\<close>

definition adjacent_pairs :: "'a list \<Rightarrow> ('a \<times> 'a) list" where
  "adjacent_pairs xs = zip xs (tl xs)"

section \<open>CSV ingestion (csv-parser.ts)\<close>

text \<open>
  A JavaScript string is modelled as the list of its code units, taken from the 8-bit
  type \<open>char\<close>: the model covers the strings whose code units are below 256. The
  whitespace of \<open>trim\<close> and of the regular expression class \<open>\s\<close> is then tab, line
  feed, vertical tab, form feed, carriage return, space and the no-break space.
\<close>

definition is_space :: "char \<Rightarrow> bool" where
  "is_space c = (c \<in> {CHR 0x09, CHR 0x0A, CHR 0x0B, CHR 0x0C, CHR 0x0D, CHR 0x20, CHR 0xA0})"

definition is_digit :: "char \<Rightarrow> bool" where
  "is_digit c = (c \<in> set ''0123456789'')"

definition digit_val :: "char \<Rightarrow> nat" where
  "digit_val c = of_char c - 48"

text \<open>The number a string of decimal digits denotes.\<close>

definition digits_val :: "string \<Rightarrow> nat" where
  "digits_val ds = foldl (\<lambda>acc c. 10 * acc + digit_val c) 0 ds"

definition trim :: "string \<Rightarrow> string" where
  "trim s = rev (dropWhile is_space (rev (dropWhile is_space s)))"

text \<open>\<open>s.replace(/[...]/g, '')\<close> for a character class: the characters of the class
  are removed.\<close>

definition remove_chars :: "(char \<Rightarrow> bool) \<Rightarrow> string \<Rightarrow> string" where
  "remove_chars cls s = filter (\<lambda>c. \<not> cls c) s"

text \<open>
  \<open>toLowerCase\<close> on one code unit below 256: the letters A to Z and the capital
  letters of Latin-1 (0xC0 to 0xDE without the multiplication sign 0xD7) move up by 32,
  every other code unit stays.
\<close>

definition upper_case_letters :: "char list" where
  "upper_case_letters = ''ABCDEFGHIJKLMNOPQRSTUVWXYZ'' @ [
        CHR 0xC0, CHR 0xC1, CHR 0xC2, CHR 0xC3, CHR 0xC4, CHR 0xC5, CHR 0xC6, CHR 0xC7,
        CHR 0xC8, CHR 0xC9, CHR 0xCA, CHR 0xCB, CHR 0xCC, CHR 0xCD, CHR 0xCE, CHR 0xCF,
        CHR 0xD0, CHR 0xD1, CHR 0xD2, CHR 0xD3, CHR 0xD4, CHR 0xD5, CHR 0xD6, CHR 0xD8,
        CHR 0xD9, CHR 0xDA, CHR 0xDB, CHR 0xDC, CHR 0xDD, CHR 0xDE]"

definition lower_case_letters :: "char list" where
  "lower_case_letters = ''abcdefghijklmnopqrstuvwxyz'' @ [
        CHR 0xE0, CHR 0xE1, CHR 0xE2, CHR 0xE3, CHR 0xE4, CHR 0xE5, CHR 0xE6, CHR 0xE7,
        CHR 0xE8, CHR 0xE9, CHR 0xEA, CHR 0xEB, CHR 0xEC, CHR 0xED, CHR 0xEE, CHR 0xEF,
        CHR 0xF0, CHR 0xF1, CHR 0xF2, CHR 0xF3, CHR 0xF4, CHR 0xF5, CHR 0xF6, CHR 0xF8,
        CHR 0xF9, CHR 0xFA, CHR 0xFB, CHR 0xFC, CHR 0xFD, CHR 0xFE]"

definition toLowerCase_char :: "char \<Rightarrow> char" where
  "toLowerCase_char c =
     (case map_of (zip upper_case_letters lower_case_letters) c of
        Some l \<Rightarrow> l
      | None \<Rightarrow> c)"

definition toLowerCase :: "string \<Rightarrow> string" where
  "toLowerCase s = map toLowerCase_char s"

text \<open>\<open>s.split(c)\<close> for a one-character separator: never the empty list.\<close>

fun split_on :: "char \<Rightarrow> string \<Rightarrow> string list" where
  "split_on sep [] = [[]]"
| "split_on sep (c # cs) =
     (if c = sep then [] # split_on sep cs
      else (case split_on sep cs of
              [] \<Rightarrow> [[c]]
            | p # ps \<Rightarrow> (c # p) # ps))"

definition strip_cr :: "string \<Rightarrow> string" where
  "strip_cr s = (if s \<noteq> [] \<and> last s = CHR 0x0D then butlast s else s)"

text \<open>\<open>csvContent.split(/\r?\n/)\<close>: the text is cut at every line feed, and a carriage
  return right before the line feed belongs to the separator.\<close>

definition split_lines :: "string \<Rightarrow> string list" where
  "split_lines s = (let ps = split_on (CHR 0x0A) s in map strip_cr (butlast ps) @ [last ps])"

text \<open>\<open>s.startsWith(p)\<close>, the prefix \<open>p\<close> first.\<close>

fun starts_with :: "string \<Rightarrow> string \<Rightarrow> bool" where
  "starts_with [] s = True"
| "starts_with (p # ps) [] = False"
| "starts_with (p # ps) (c # cs) = (p = c \<and> starts_with ps cs)"

text \<open>\<open>s.includes(sub)\<close>.\<close>

fun str_includes :: "string \<Rightarrow> string \<Rightarrow> bool" where
  "str_includes [] sub = (sub = [])"
| "str_includes (c # cs) sub = (starts_with sub (c # cs) \<or> str_includes cs sub)"

text \<open>\<open>s.padStart(2, '0')\<close>.\<close>

definition padStart2 :: "string \<Rightarrow> string" where
  "padStart2 s = replicate (2 - length s) (CHR ''0'') @ s"

text \<open>Between \<open>lo\<close> and \<open>hi\<close> decimal digits and nothing else: \<open>^\d{lo,hi}$\<close>.\<close>

definition digits_between :: "nat \<Rightarrow> nat \<Rightarrow> string \<Rightarrow> bool" where
  "digits_between lo hi s = (lo \<le> length s \<and> length s \<le> hi \<and> list_all is_digit s)"

subsection \<open>Dates\<close>

text \<open>\<open>/^\d{4}-\d{2}-\d{2}$/\<close>.\<close>

definition is_iso_date :: "string \<Rightarrow> bool" where
  "is_iso_date s =
     (case split_on (CHR ''-'') s of
        [y, m, d] \<Rightarrow> digits_between 4 4 y \<and> digits_between 2 2 m \<and> digits_between 2 2 d
      | other \<Rightarrow> False)"

text \<open>
  The fallback of \<open>parseDate\<close>, \<open>new Date(cleaned)\<close> followed by
  \<open>toISOString().split('T')[0]\<close>, reads free-form dates in a way each JavaScript engine
  defines: it is a parameter \<open>dateFallback\<close>, which returns \<open>None\<close> for an invalid date.
\<close>

definition parseDate :: "(string \<Rightarrow> string option) \<Rightarrow> string \<Rightarrow> string option" where
  "parseDate dateFallback dateStr =
     (let cleaned = remove_chars (\<lambda>c. c \<in> set [CHR 0x22, CHR 0x27]) (trim dateStr)
      in if is_iso_date cleaned then Some cleaned
         else (case split_on (CHR ''/'') cleaned of
                 [month, day, year] \<Rightarrow>
                   if digits_between 1 2 month \<and> digits_between 1 2 day \<and> digits_between 4 4 year
                   then Some (year @ ''-'' @ padStart2 month @ ''-'' @ padStart2 day)
                   else if digits_between 1 2 month \<and> digits_between 1 2 day \<and> digits_between 2 2 year
                   then Some ((if 50 < digits_val year then ''19'' @ year else ''20'' @ year)
                              @ ''-'' @ padStart2 month @ ''-'' @ padStart2 day)
                   else dateFallback cleaned
               | other \<Rightarrow> dateFallback cleaned))"

subsection \<open>Amounts\<close>

text \<open>
  The numbers the parser produces: a finite number (a real; the rounding, overflow and
  underflow of binary64 are outside the model) or one of the two infinities, which
  \<open>parseFloat\<close> reads from the word \<open>Infinity\<close>. \<open>NaN\<close> is \<open>None\<close> in the result of
  \<open>parseFloat\<close>.
\<close>

datatype number = Fin real | PosInf | NegInf

fun negate :: "number \<Rightarrow> number" where
  "negate (Fin x) = Fin (- x)"
| "negate PosInf = NegInf"
| "negate NegInf = PosInf"

fun Math_abs :: "number \<Rightarrow> number" where
  "Math_abs (Fin x) = Fin \<bar>x\<bar>"
| "Math_abs PosInf = PosInf"
| "Math_abs NegInf = PosInf"

fun is_positive :: "number \<Rightarrow> bool" where
  "is_positive (Fin x) = (0 < x)"
| "is_positive PosInf = True"
| "is_positive NegInf = False"

text \<open>The exponent part of a decimal literal: \<open>e\<close> or \<open>E\<close>, an optional sign and at
  least one digit; anything else is not part of the number.\<close>

definition exponent_of :: "string \<Rightarrow> int" where
  "exponent_of s =
     (case s of
        [] \<Rightarrow> 0
      | e # r \<Rightarrow>
          if e \<noteq> CHR ''e'' \<and> e \<noteq> CHR ''E'' then 0
          else (case r of
                  [] \<Rightarrow> 0
                | sg # r' \<Rightarrow>
                    if sg = CHR ''-'' then
                      (if takeWhile is_digit r' = [] then 0
                       else - int (digits_val (takeWhile is_digit r')))
                    else if sg = CHR ''+'' then int (digits_val (takeWhile is_digit r'))
                    else int (digits_val (takeWhile is_digit r))))"

definition pow10 :: "int \<Rightarrow> real" where
  "pow10 e = (if 0 \<le> e then 10 ^ nat e else 1 / 10 ^ nat (- e))"

text \<open>An unsigned decimal literal at the start of the string: its value, or \<open>None\<close> when
  no digit stands in its mantissa.\<close>

definition unsigned_literal :: "string \<Rightarrow> real option" where
  "unsigned_literal s =
     (let ip = takeWhile is_digit s;
          r1 = dropWhile is_digit s;
          hasDot = (r1 \<noteq> [] \<and> hd r1 = CHR ''.'');
          fp = (if hasDot then takeWhile is_digit (tl r1) else []);
          r2 = (if hasDot then dropWhile is_digit (tl r1) else r1)
      in if ip = [] \<and> fp = [] then None
         else Some ((real (digits_val ip) + real (digits_val fp) / 10 ^ length fp)
                    * pow10 (exponent_of r2)))"

definition parseFloat :: "string \<Rightarrow> number option" where
  "parseFloat s =
     (let s1 = dropWhile is_space s;
          neg = (s1 \<noteq> [] \<and> hd s1 = CHR ''-'');
          s2 = (if s1 \<noteq> [] \<and> (hd s1 = CHR ''-'' \<or> hd s1 = CHR ''+'') then tl s1 else s1)
      in if starts_with ''Infinity'' s2 then Some (if neg then NegInf else PosInf)
         else (case unsigned_literal s2 of
                 None \<Rightarrow> None
               | Some v \<Rightarrow> Some (Fin (if neg then - v else v))))"

definition startsWith_endsWith_paren :: "string \<Rightarrow> bool" where
  "startsWith_endsWith_paren s = (s \<noteq> [] \<and> hd s = CHR ''('' \<and> last s = CHR '')'')"

text \<open>
  \<open>parseAmount\<close>. The class \<open>["'$...]\<close> of the source also holds the euro sign, whose
  code unit is not below 256; the pound and yen signs are code units 0xA3 and 0xA5.
  \<open>cleaned.slice(1, -1)\<close> drops the first and the last character (of \<open>"("\<close> alone
  nothing is left, as of \<open>"()"\<close>).
\<close>

definition parseAmount :: "string \<Rightarrow> number option" where
  "parseAmount amountStr =
     (let cleaned0 = remove_chars is_space
                       (remove_chars (\<lambda>c. c \<in> set [CHR 0x22, CHR 0x27, CHR ''$'', CHR 0xA3, CHR 0xA5])
                          (trim amountStr));
          isNegative = startsWith_endsWith_paren cleaned0;
          cleaned1 = (if isNegative then butlast (tl cleaned0) else cleaned0);
          hasNegativeSign = (cleaned1 \<noteq> [] \<and> hd cleaned1 = CHR ''-'');
          cleaned2 = (if hasNegativeSign then tl cleaned1 else cleaned1);
          cleaned3 = remove_chars (\<lambda>c. c = CHR '','') cleaned2
      in (case parseFloat cleaned3 of
            None \<Rightarrow> None
          | Some amt \<Rightarrow> Some (if isNegative \<or> hasNegativeSign then negate amt else amt)))"

subsection \<open>Lines, delimiter and columns\<close>

text \<open>The loop of \<open>splitCSVLine\<close> over the characters of the line, on \<open>result\<close>,
  \<open>current\<close> and \<open>inQuotes\<close>; a doubled quote inside quotes is one quote and skips a
  character.\<close>

fun splitCSV_loop :: "char \<Rightarrow> string \<Rightarrow> string list \<Rightarrow> string \<Rightarrow> bool \<Rightarrow> string list" where
  "splitCSV_loop delimiter [] result current inQuotes = result @ [trim current]"
| "splitCSV_loop delimiter [c] result current inQuotes =
     (if c = CHR 0x22 then splitCSV_loop delimiter [] result current (\<not> inQuotes)
      else if c = delimiter \<and> \<not> inQuotes then splitCSV_loop delimiter [] (result @ [trim current]) [] inQuotes
      else splitCSV_loop delimiter [] result (current @ [c]) inQuotes)"
| "splitCSV_loop delimiter (c # c' # cs) result current inQuotes =
     (if c = CHR 0x22 then
        (if inQuotes \<and> c' = CHR 0x22
         then splitCSV_loop delimiter cs result (current @ [CHR 0x22]) inQuotes
         else splitCSV_loop delimiter (c' # cs) result current (\<not> inQuotes))
      else if c = delimiter \<and> \<not> inQuotes
      then splitCSV_loop delimiter (c' # cs) (result @ [trim current]) [] inQuotes
      else splitCSV_loop delimiter (c' # cs) result (current @ [c]) inQuotes)"

definition splitCSVLine :: "string \<Rightarrow> char \<Rightarrow> string list" where
  "splitCSVLine line delimiter = splitCSV_loop delimiter line [] [] False"

definition count_char :: "char \<Rightarrow> string \<Rightarrow> nat" where
  "count_char c s = length (filter (\<lambda>x. x = c) s)"

text \<open>The body of the loop of \<open>detectDelimiter\<close>, on the pair \<open>(tabCount, commaCount)\<close>.\<close>

definition count_step :: "nat \<times> nat \<Rightarrow> string \<Rightarrow> nat \<times> nat" where
  "count_step counts line =
     (fst counts + count_char (CHR 0x09) line, snd counts + count_char (CHR '','') line)"

definition detectDelimiter :: "string list \<Rightarrow> char" where
  "detectDelimiter lines =
     (let sampleLines = take 5 lines;
          counts = foldl count_step (0, 0) sampleLines;
          tabCount = fst counts;
          commaCount = snd counts
      in if commaCount < tabCount \<and> length sampleLines \<le> tabCount then CHR 0x09 else CHR '','')"

definition looksLikeDate :: "string \<Rightarrow> bool" where
  "looksLikeDate v =
     ((case split_on (CHR ''/'') v of
         [a, b, c] \<Rightarrow> digits_between 1 2 a \<and> digits_between 1 2 b \<and> digits_between 2 4 c
       | other \<Rightarrow> False)
      \<or> is_iso_date v
      \<or> (case split_on (CHR ''-'') v of
            [a, b, c] \<Rightarrow> digits_between 1 2 a \<and> digits_between 1 2 b \<and> digits_between 2 4 c
          | other \<Rightarrow> False))"

text \<open>\<open>/^-?\d+\.?\d*$/\<close> on the value without dollar signs, commas, double quotes and
  whitespace.\<close>

definition looksLikeAmount :: "string \<Rightarrow> bool" where
  "looksLikeAmount v =
     (let cleaned = remove_chars (\<lambda>c. c \<in> set [CHR ''$'', CHR '','', CHR 0x22] \<or> is_space c) v;
          body = (if cleaned \<noteq> [] \<and> hd cleaned = CHR ''-'' then tl cleaned else cleaned);
          r = dropWhile is_digit body
      in takeWhile is_digit body \<noteq> []
         \<and> (r = [] \<or> (hd r = CHR ''.'' \<and> list_all is_digit (tl r))))"

text \<open>\<open>s.replace(/\s+/g, ' ')\<close>: every run of whitespace becomes one space; the flag
  says whether the previous character was whitespace.\<close>

fun collapse_ws :: "bool \<Rightarrow> string \<Rightarrow> string" where
  "collapse_ws prevWs [] = []"
| "collapse_ws prevWs (c # cs) =
     (if is_space c then (if prevWs then collapse_ws True cs else CHR 0x20 # collapse_ws True cs)
      else c # collapse_ws False cs)"

record ColumnMapping =
  dateIndex :: int
  descriptionIndex :: int
  amountIndex :: int
  debitIndex :: "int option"
  creditIndex :: "int option"

text \<open>The five local index variables of \<open>detectColumns\<close> and \<open>detectColumnsFromData\<close>,
  with -1 for "not found".\<close>

record ColumnScan =
  dateIx :: int
  descriptionIx :: int
  amountIx :: int
  debitIx :: int
  creditIx :: int

definition scan_init :: ColumnScan where
  "scan_init = \<lparr>dateIx = - 1, descriptionIx = - 1, amountIx = - 1, debitIx = - 1, creditIx = - 1\<rparr>"

definition normalize_header :: "string \<Rightarrow> string" where
  "normalize_header h =
     trim (collapse_ws False
       (remove_chars (\<lambda>c. c \<in> set [CHR 0x22, CHR 0x27, CHR ''.'']) (toLowerCase h)))"

text \<open>The body of the loop of \<open>detectColumns\<close> for the header \<open>h\<close> at index \<open>i\<close>.\<close>

definition header_step :: "ColumnScan \<Rightarrow> nat \<times> string \<Rightarrow> ColumnScan" where
  "header_step st ih =
     (let i = int (fst ih); h = snd ih;
          st1 = (if dateIx st = - 1 \<and>
                    (str_includes h ''date'' \<or> h = ''posted'' \<or> str_includes h ''trans'')
                 then st\<lparr>dateIx := i\<rparr> else st);
          st2 = (if descriptionIx st1 = - 1 \<and>
                    (str_includes h ''description'' \<or> str_includes h ''descrip'' \<or>
                     str_includes h ''merchant'' \<or> str_includes h ''payee'' \<or>
                     h = ''name'' \<or> h = ''memo'' \<or>
                     str_includes h ''narrative'' \<or> str_includes h ''details'')
                 then st1\<lparr>descriptionIx := i\<rparr> else st1);
          st3 = (if amountIx st2 = - 1 \<and>
                    (h = ''amount'' \<or> str_includes h ''amount'' \<or> h = ''value'' \<or> h = ''sum'')
                 then st2\<lparr>amountIx := i\<rparr> else st2);
          st4 = (if h = ''debit'' \<or> h = ''withdrawal'' \<or> str_includes h ''debit''
                 then st3\<lparr>debitIx := i\<rparr> else st3);
          st5 = (if h = ''credit'' \<or> h = ''deposit'' \<or> str_includes h ''credit''
                 then st4\<lparr>creditIx := i\<rparr> else st4)
      in st5)"

definition detectColumns :: "string list \<Rightarrow> ColumnMapping option" where
  "detectColumns headers =
     (let lowerHeaders = map normalize_header headers;
          st = foldl header_step scan_init (zip [0..<length lowerHeaders] lowerHeaders);
          st' = (if dateIx st = - 1 \<and> 3 \<le> length headers
                 then st\<lparr>dateIx := 0, descriptionIx := 1, amountIx := 2\<rparr> else st)
      in if dateIx st' = - 1 \<or> descriptionIx st' = - 1 then None
         else (let amountIndex' =
                     (if amountIx st' = - 1 \<and> (debitIx st' = - 1 \<or> creditIx st' = - 1)
                      then int (length headers) - 1 else amountIx st')
               in Some \<lparr>dateIndex = dateIx st',
                         descriptionIndex = descriptionIx st',
                         amountIndex = amountIndex',
                         debitIndex = (if 0 \<le> debitIx st' then Some (debitIx st') else None),
                         creditIndex = (if 0 \<le> creditIx st' then Some (creditIx st') else None)\<rparr>))"

text \<open>The body of the loop of \<open>detectColumnsFromData\<close>.\<close>

definition data_step :: "ColumnScan \<Rightarrow> nat \<times> string \<Rightarrow> ColumnScan" where
  "data_step st ifield =
     (let i = int (fst ifield); field = snd ifield
      in if dateIx st = - 1 \<and> looksLikeDate field then st\<lparr>dateIx := i\<rparr>
         else if amountIx st = - 1 \<and> looksLikeAmount field then st\<lparr>amountIx := i\<rparr>
         else if descriptionIx st = - 1 \<and> 2 < length field \<and> \<not> looksLikeDate field
                 \<and> \<not> looksLikeAmount field
         then st\<lparr>descriptionIx := i\<rparr>
         else st)"

definition detectColumnsFromData :: "string list \<Rightarrow> ColumnMapping option" where
  "detectColumnsFromData flds =
     (let st = foldl data_step scan_init (zip [0..<length flds] flds)
      in if dateIx st = - 1 \<or> descriptionIx st = - 1 \<or> amountIx st = - 1 then None
         else Some \<lparr>dateIndex = dateIx st, descriptionIndex = descriptionIx st,
                    amountIndex = amountIx st, debitIndex = None, creditIndex = None\<rparr>)"

subsection \<open>parseCSV\<close>

record ParsedTransaction =
  p_date :: string
  p_description :: string
  p_amount :: number
  rawLine :: string

text \<open>
  The error messages of \<open>parseCSV\<close> as values: \<open>EmptyFile\<close> is "CSV file is empty",
  \<open>NoColumns\<close> is "Could not detect required columns. ...", \<open>InvalidDate n d\<close> is
  "Row n: Invalid date "d"" (\<open>d\<close> is \<open>None\<close> when the row has no such field and the
  message shows \<open>undefined\<close>) and \<open>InvalidAmount n\<close> is "Row n: Invalid amount".
\<close>

datatype csv_error = EmptyFile | NoColumns | InvalidDate nat "string option" | InvalidAmount nat

record CSVParseResult =
  csv_transactions :: "ParsedTransaction list"
  csv_errors :: "csv_error list"
  csv_skipped :: nat

text \<open>\<open>fields[index]\<close>: \<open>None\<close> is \<open>undefined\<close>, for an index outside the array.\<close>

definition field_at :: "string list \<Rightarrow> int \<Rightarrow> string option" where
  "field_at flds i = (if 0 \<le> i \<and> nat i < length flds then Some (flds ! nat i) else None)"

text \<open>\<open>value || dflt\<close> on a string or \<open>undefined\<close>: the empty string is falsy as well.\<close>

definition or_else :: "string option \<Rightarrow> string \<Rightarrow> string" where
  "or_else v dflt = (case v of None \<Rightarrow> dflt | Some s \<Rightarrow> if s = [] then dflt else s)"

text \<open>The amount of a row: \<open>None\<close> is \<open>null\<close>.\<close>

definition row_amount :: "ColumnMapping \<Rightarrow> string list \<Rightarrow> number option" where
  "row_amount mapping flds =
     (case (debitIndex mapping, creditIndex mapping) of
        (Some di, Some ci) \<Rightarrow>
          (let debit = parseAmount (or_else (field_at flds di) ''0'');
               credit = parseAmount (or_else (field_at flds ci) ''0'')
           in if (case debit of None \<Rightarrow> False | Some d \<Rightarrow> is_positive d) then debit
              else if (case credit of None \<Rightarrow> False | Some c \<Rightarrow> is_positive c)
              then map_option negate credit
              else Some (Fin 0))
      | other \<Rightarrow> parseAmount (or_else (field_at flds (amountIndex mapping)) ''''))"

text \<open>The body of the loop over the data rows, for the line \<open>lines[i]\<close>.\<close>

definition parse_row ::
  "(string \<Rightarrow> string option) \<Rightarrow> ColumnMapping \<Rightarrow> char \<Rightarrow> CSVParseResult \<Rightarrow> nat \<times> string
     \<Rightarrow> CSVParseResult" where
  "parse_row dateFallback mapping delimiter st il =
     (let i = fst il; line = trim (snd il)
      in if line = [] then st
         else (let flds = splitCSVLine line delimiter;
                   dateStr = field_at flds (dateIndex mapping)
               in (case parseDate dateFallback (or_else dateStr '''') of
                     None \<Rightarrow> st\<lparr>csv_errors := csv_errors st @ [InvalidDate (i + 1) dateStr],
                                 csv_skipped := csv_skipped st + 1\<rparr>
                   | Some dt \<Rightarrow>
                       (let description =
                              trim (remove_chars (\<lambda>c. c \<in> set [CHR 0x22, CHR 0x27])
                                      (or_else (field_at flds (descriptionIndex mapping)) ''''))
                        in if description = [] then st\<lparr>csv_skipped := csv_skipped st + 1\<rparr>
                           else (case row_amount mapping flds of
                                   None \<Rightarrow>
                                     st\<lparr>csv_errors := csv_errors st @ [InvalidAmount (i + 1)],
                                        csv_skipped := csv_skipped st + 1\<rparr>
                                 | Some amt \<Rightarrow>
                                     if amt = Fin 0 then st\<lparr>csv_skipped := csv_skipped st + 1\<rparr>
                                     else st\<lparr>csv_transactions := csv_transactions st @
                                              [\<lparr>p_date = dt, p_description = description,
                                                p_amount = Math_abs amt, rawLine = line\<rparr>]\<rparr>)))))"

text \<open>
  \<open>parseCSV\<close>. The final sort compares \<open>new Date(a.date).getTime()\<close>; the time of a date
  string is the parameter \<open>dateTime\<close> (for a string \<open>new Date\<close> cannot read the source
  compares \<open>NaN\<close>, and the order its sort leaves is the engine's; the model sorts stably
  by the key it is given).
\<close>

definition parseCSV ::
  "(string \<Rightarrow> string option) \<Rightarrow> (string \<Rightarrow> int) \<Rightarrow> string \<Rightarrow> CSVParseResult" where
  "parseCSV dateFallback dateTime csvContent =
     (let lines = filter (\<lambda>line. trim line \<noteq> []) (split_lines csvContent)
      in if length lines < 1
         then \<lparr>csv_transactions = [], csv_errors = [EmptyFile], csv_skipped = 0\<rparr>
         else (let delimiter = detectDelimiter lines;
                   firstLineFields = splitCSVLine (lines ! 0) delimiter;
                   firstLineIsData = (list_ex looksLikeDate firstLineFields
                                      \<and> list_ex looksLikeAmount firstLineFields);
                   mapping = (if firstLineIsData then detectColumnsFromData firstLineFields
                              else detectColumns firstLineFields);
                   dataStartIndex = (if firstLineIsData then 0 else 1 :: nat)
               in (case mapping of
                     None \<Rightarrow> \<lparr>csv_transactions = [], csv_errors = [NoColumns], csv_skipped = 0\<rparr>
                   | Some mp \<Rightarrow>
                       (let st = foldl (parse_row dateFallback mp delimiter)
                                   \<lparr>csv_transactions = [], csv_errors = [], csv_skipped = 0\<rparr>
                                   (drop dataStartIndex (zip [0..<length lines] lines))
                        in st\<lparr>csv_transactions :=
                                sort_key (\<lambda>t. dateTime (p_date t)) (csv_transactions st)\<rparr>))))"

subsection \<open>The notions of the specification of the CSV adapter\<close>

text \<open>The number of occurrences of a character in the sampled lines.\<close>

definition sample_count :: "char \<Rightarrow> string list \<Rightarrow> nat" where
  "sample_count c lines = sum_list (map (count_char c) (take 5 lines))"

text \<open>The date and the description \<open>parseCSV\<close> reads from a row, and a row that gets
  as far as its amount: not blank, its date parsed, its description not empty.\<close>

definition row_date :: "(string \<Rightarrow> string option) \<Rightarrow> ColumnMapping \<Rightarrow> string list \<Rightarrow> string option" where
  "row_date dateFallback mapping flds =
     parseDate dateFallback (or_else (field_at flds (dateIndex mapping)) '''')"

definition row_description :: "ColumnMapping \<Rightarrow> string list \<Rightarrow> string" where
  "row_description mapping flds =
     trim (remove_chars (\<lambda>c. c \<in> set [CHR 0x22, CHR 0x27])
             (or_else (field_at flds (descriptionIndex mapping)) ''''))"

definition row_ready :: "(string \<Rightarrow> string option) \<Rightarrow> ColumnMapping \<Rightarrow> char \<Rightarrow> string \<Rightarrow> bool" where
  "row_ready dateFallback mapping delimiter line =
     (trim line \<noteq> []
      \<and> row_date dateFallback mapping (splitCSVLine (trim line) delimiter) \<noteq> None
      \<and> row_description mapping (splitCSVLine (trim line) delimiter) \<noteq> [])"

section \<open>Merchant resolution (merchant-normalizer.ts)\<close>

subsection \<open>Similarity of two names\<close>

text \<open>
  \<open>arr[j] = v\<close> on a JavaScript array: an index inside the array is overwritten, the
  index right after the last element extends the array. (A larger index would leave
  holes; the loops of \<open>levenshteinDistance\<close> never write there.)
\<close>

definition array_set :: "'a list \<Rightarrow> nat \<Rightarrow> 'a \<Rightarrow> 'a list" where
  "array_set xs j v = (if j < length xs then xs[j := v] else xs @ [v])"

text \<open>The first two loops of \<open>levenshteinDistance\<close>: \<open>matrix[i] = [i]\<close> for \<open>i\<close> up to
  \<open>b.length\<close>, then \<open>matrix[0][j] = j\<close> for \<open>j\<close> up to \<open>a.length\<close>.\<close>

definition lev_init :: "nat \<Rightarrow> nat \<Rightarrow> nat list list" where
  "lev_init la lb =
     (let matrix = foldl (\<lambda>m i. array_set m i [i]) [] [0..<Suc lb]
      in foldl (\<lambda>m j. m[0 := array_set (m ! 0) j j]) matrix [0..<Suc la])"

text \<open>The value the inner loop stores in \<open>matrix[i][j]\<close>.\<close>

definition lev_cell :: "'a list \<Rightarrow> 'a list \<Rightarrow> nat list list \<Rightarrow> nat \<Rightarrow> nat \<Rightarrow> nat" where
  "lev_cell a b m i j =
     (if b ! (i - 1) = a ! (j - 1) then m ! (i - 1) ! (j - 1)
      else min (m ! (i - 1) ! (j - 1) + 1) (min (m ! i ! (j - 1) + 1) (m ! (i - 1) ! j + 1)))"

text \<open>The inner loop, \<open>for (j = 1; j <= a.length; j++)\<close>, for the row \<open>i\<close>.\<close>

definition lev_row :: "'a list \<Rightarrow> 'a list \<Rightarrow> nat list list \<Rightarrow> nat \<Rightarrow> nat list list" where
  "lev_row a b matrix i =
     foldl (\<lambda>m j. m[i := array_set (m ! i) j (lev_cell a b m i j)]) matrix [1..<Suc (length a)]"

definition levenshteinDistance :: "'a list \<Rightarrow> 'a list \<Rightarrow> nat" where
  "levenshteinDistance a b =
     (let matrix = foldl (lev_row a b) (lev_init (length a) (length b)) [1..<Suc (length b)]
      in matrix ! length b ! length a)"

text \<open>\<open>s.toLowerCase().replace(/[^a-z0-9]/g, '')\<close>.\<close>

definition alnum_lower :: "string \<Rightarrow> string" where
  "alnum_lower s =
     filter (\<lambda>c. c \<in> set ''abcdefghijklmnopqrstuvwxyz0123456789'') (toLowerCase s)"

definition calculateSimilarity :: "string \<Rightarrow> string \<Rightarrow> real" where
  "calculateSimilarity a b =
     (let normA = alnum_lower a; normB = alnum_lower b
      in if normA = normB then 1
         else if length normA = 0 \<or> length normB = 0 then 0
         else (let distance = levenshteinDistance normA normB;
                   maxLength = max (length normA) (length normB)
               in 1 - real distance / real maxLength))"

subsection \<open>The Levenshtein distance of the specification\<close>

text \<open>One single-character edit: an insertion, a deletion or a substitution, at any
  position of the string.\<close>

inductive edit1 :: "'a list \<Rightarrow> 'a list \<Rightarrow> bool" where
  ins: "edit1 ys (c # ys)"
| del: "edit1 (y # ys) ys"
| sub: "edit1 (y # ys) (z # ys)"
| ctx: "edit1 ys zs \<Longrightarrow> edit1 (y # ys) (y # zs)"

text \<open>The Levenshtein distance: the least number of single-character edits that turn
  one string into the other.\<close>

definition levenshtein :: "'a list \<Rightarrow> 'a list \<Rightarrow> nat" where
  "levenshtein xs ys = (LEAST n. (edit1 ^^ n) xs ys)"

text \<open>For the proof: alignments of two strings with their cost, and the distance
  computed by recursion on the two strings.\<close>

inductive aligned :: "nat \<Rightarrow> 'a list \<Rightarrow> 'a list \<Rightarrow> bool" where
  a_nil: "aligned 0 [] []"
| a_keep: "aligned n xs ys \<Longrightarrow> aligned n (x # xs) (x # ys)"
| a_sub: "aligned n xs ys \<Longrightarrow> aligned (Suc n) (x # xs) (y # ys)"
| a_del: "aligned n xs ys \<Longrightarrow> aligned (Suc n) (x # xs) ys"
| a_ins: "aligned n xs ys \<Longrightarrow> aligned (Suc n) xs (y # ys)"

fun lev :: "'a list \<Rightarrow> 'a list \<Rightarrow> nat" where
  "lev [] ys = length ys"
| "lev (x # xs) [] = Suc (length xs)"
| "lev (x # xs) (y # ys) =
     (if x = y then lev xs ys
      else min (lev xs ys + 1) (min (lev (x # xs) ys + 1) (lev xs (y # ys) + 1)))"

text \<open>The distance between the first \<open>i\<close> characters of \<open>b\<close> and the first \<open>j\<close>
  characters of \<open>a\<close>: what the matrix holds at row \<open>i\<close>, column \<open>j\<close>.\<close>

definition prefix_dist :: "'a list \<Rightarrow> 'a list \<Rightarrow> nat \<Rightarrow> nat \<Rightarrow> nat" where
  "prefix_dist a b i j = lev (rev (take i b)) (rev (take j a))"

text \<open>The matrix before the outer loop reaches row \<open>i\<close>: the rows above are complete,
  the others still hold their first entry only.\<close>

definition rows_done :: "'a list \<Rightarrow> 'a list \<Rightarrow> nat \<Rightarrow> nat list list \<Rightarrow> bool" where
  "rows_done a b i m =
     (length m = Suc (length b)
      \<and> (\<forall>i'<i. m ! i' = map (prefix_dist a b i') [0..<Suc (length a)])
      \<and> (\<forall>i'. i \<le> i' \<and> i' \<le> length b \<longrightarrow> m ! i' = [i']))"

text \<open>The matrix before the inner loop reaches column \<open>j\<close> of row \<open>i\<close>.\<close>

definition row_partial :: "'a list \<Rightarrow> 'a list \<Rightarrow> nat \<Rightarrow> nat \<Rightarrow> nat list list \<Rightarrow> bool" where
  "row_partial a b i j m =
     (length m = Suc (length b)
      \<and> (\<forall>i'<i. m ! i' = map (prefix_dist a b i') [0..<Suc (length a)])
      \<and> m ! i = map (prefix_dist a b i) [0..<j]
      \<and> (\<forall>i'. i < i' \<and> i' \<le> length b \<longrightarrow> m ! i' = [i']))"

subsection \<open>The merchant store and findOrCreateMerchant\<close>

text \<open>
  The two tables \<open>findOrCreateMerchant\<close> reads and writes, as lists of rows. A merchant
  id is a UUID the database generates: ids are natural numbers and the store holds the
  next one to hand out. The database operations are modelled as they behave when the
  database is reachable: a query returns the matching rows of the table, an insert fails
  only on the constraint \<open>UNIQUE(user_id, name)\<close>.
\<close>

record Merchant =
  m_id :: nat
  m_user_id :: string
  m_name :: string
  m_raw_names :: "string list"

record MerchantAlias =
  a_merchant_id :: nat
  a_raw_name :: string
  a_user_id :: string

record Store =
  merchants :: "Merchant list"
  merchant_aliases :: "MerchantAlias list"
  next_id :: nat

text \<open>\<open>.single()\<close>: the row when exactly one row matches, otherwise no data.\<close>

definition single :: "'a list \<Rightarrow> 'a option" where
  "single rows = (case rows of [r] \<Rightarrow> Some r | other \<Rightarrow> None)"

definition alias_matches :: "string \<Rightarrow> string \<Rightarrow> MerchantAlias \<Rightarrow> bool" where
  "alias_matches userId rawName a = (a_user_id a = userId \<and> a_raw_name a = rawName)"

text \<open>\<open>insert(...).select('id').single()\<close> into \<open>merchants\<close>: \<open>None\<close> is the error of
  the unique constraint on \<open>(user_id, name)\<close>.\<close>

definition insert_merchant :: "Store \<Rightarrow> string \<Rightarrow> string \<Rightarrow> string list \<Rightarrow> (nat \<times> Store) option" where
  "insert_merchant store userId name rawNames =
     (if list_ex (\<lambda>m. m_user_id m = userId \<and> m_name m = name) (merchants store) then None
      else Some (next_id store,
                 store\<lparr>merchants := merchants store @
                          [\<lparr>m_id = next_id store, m_user_id = userId, m_name = name,
                            m_raw_names = rawNames\<rparr>],
                        next_id := next_id store + 1\<rparr>))"

text \<open>\<open>upsert(..., {onConflict: 'user_id,raw_name'})\<close> into \<open>merchant_aliases\<close>.\<close>

definition upsert_alias :: "Store \<Rightarrow> nat \<Rightarrow> string \<Rightarrow> string \<Rightarrow> Store" where
  "upsert_alias store mId rawName userId =
     (if list_ex (alias_matches userId rawName) (merchant_aliases store)
      then store\<lparr>merchant_aliases :=
                   map (\<lambda>a. if alias_matches userId rawName a
                             then a\<lparr>a_merchant_id := mId\<rparr> else a)
                       (merchant_aliases store)\<rparr>
      else store\<lparr>merchant_aliases := merchant_aliases store @
                   [\<lparr>a_merchant_id = mId, a_raw_name = rawName, a_user_id = userId\<rparr>]\<rparr>)"

text \<open>The loop over \<open>allMerchants\<close>: the first merchant whose name is more than 0.8
  similar.\<close>

fun find_similar :: "string \<Rightarrow> Merchant list \<Rightarrow> nat option" where
  "find_similar normalizedName [] = None"
| "find_similar normalizedName (merchant # rest) =
     (if 8 / 10 < calculateSimilarity normalizedName (m_name merchant) then Some (m_id merchant)
      else find_similar normalizedName rest)"

datatype store_error = CreateMerchantFailed

text \<open>
  \<open>findOrCreateMerchant\<close>. The normalisation of the raw name is a pure function of it and
  the database routine \<open>array_append_unique\<close> is not part of the repository: both are
  parameters, and what is proved holds for every choice of them.
\<close>

definition findOrCreateMerchant ::
  "(string \<Rightarrow> string) \<Rightarrow> (string list \<Rightarrow> string \<Rightarrow> string list) \<Rightarrow> Store \<Rightarrow> string \<Rightarrow> string
     \<Rightarrow> (store_error + nat) \<times> Store" where
  "findOrCreateMerchant normalizeMerchantName array_append_unique store userId rawName =
     (let normalizedName = normalizeMerchantName rawName
      in (case single (filter (alias_matches userId rawName) (merchant_aliases store)) of
            Some existingAlias \<Rightarrow> (Inr (a_merchant_id existingAlias), store)
          | None \<Rightarrow>
              (case single (filter (\<lambda>m. m_user_id m = userId \<and> m_name m = normalizedName)
                              (merchants store)) of
                 Some existingMerchant \<Rightarrow>
                   (let mId = m_id existingMerchant;
                        store1 = store\<lparr>merchants :=
                                   map (\<lambda>m. if m_id m = mId
                                             then m\<lparr>m_raw_names :=
                                                      array_append_unique (m_raw_names m) rawName\<rparr>
                                             else m)
                                       (merchants store)\<rparr>
                    in (Inr mId, upsert_alias store1 mId rawName userId))
               | None \<Rightarrow>
                   (case find_similar normalizedName
                           (filter (\<lambda>m. m_user_id m = userId) (merchants store)) of
                      Some mId \<Rightarrow>
                        (Inr mId, upsert_alias store mId rawName userId)
                    | None \<Rightarrow>
                        (case insert_merchant store userId normalizedName [rawName] of
                           None \<Rightarrow> (Inl CreateMerchantFailed, store)
                         | Some (mId, store1) \<Rightarrow>
                             (Inr mId, upsert_alias store1 mId rawName userId))))))"

text \<open>The constraint \<open>UNIQUE(user_id, raw_name)\<close> of the alias table, and the number of
  alias rows of a user and a raw name.\<close>

definition alias_rows :: "Store \<Rightarrow> string \<Rightarrow> string \<Rightarrow> nat" where
  "alias_rows store userId rawName =
     length (filter (alias_matches userId rawName) (merchant_aliases store))"

definition alias_unique :: "Store \<Rightarrow> bool" where
  "alias_unique store = distinct (map (\<lambda>a. (a_user_id a, a_raw_name a)) (merchant_aliases store))"

section \<open>Properties of the recurring-charge detector\<close>

subsection \<open>Sorting\<close>

lemma sort_key_sorted_id: "sorted (map f xs) \<Longrightarrow> sort_key f xs = xs"
proof (induction xs)
  case Nil
  then show ?case by simp
next
  case (Cons x xs)
  then have "sort_key f xs = xs" by simp
  moreover have "insort_key f x xs = x # xs"
    using Cons.prems by (cases xs) auto
  ultimately show ?case by simp
qed

subsection \<open>Groups\<close>

lemma group_of_snoc:
  "group_of m (txs @ [t]) = (if merchant_id t = Some m \<and> \<not> pending t then group_of m txs @ [t] else group_of m txs)"
  by (simp add: group_of_def)

lemma group_push_keys:
  "map fst (group_push k tx gs) = (if k \<in> fst ` set gs then map fst gs else map fst gs @ [k])"
proof (induction gs)
  case Nil
  show ?case by simp
next
  case (Cons e gs)
  obtain k' g where e: "e = (k', g)" by (cases e)
  show ?case
  proof (cases "k' = k")
    case True
    with e show ?thesis by simp
  next
    case False
    with e Cons.IH show ?thesis by simp
  qed
qed

lemma group_push_distinct:
  "distinct (map fst gs) \<Longrightarrow> distinct (map fst (group_push k tx gs))"
  by (simp add: group_push_keys)

lemma group_push_fst: "fst ` set (group_push k tx gs) = insert k (fst ` set gs)"
proof -
  have "set (map fst (group_push k tx gs)) = insert k (set (map fst gs))"
    unfolding group_push_keys by auto
  then show ?thesis by simp
qed

lemma group_push_ok:
  assumes "\<forall>e\<in>set gs. group_ok txs e" "merchant_id tx = Some k" "\<not> pending tx" "k \<noteq> []"
    and "distinct (map fst gs)"
    and "k \<notin> fst ` set gs \<Longrightarrow> group_of k txs = []"
  shows "\<forall>e\<in>set (group_push k tx gs). group_ok (txs @ [tx]) e"
  using assms
proof (induction gs)
  case Nil
  then show ?case by (simp add: group_ok_def group_of_snoc)
next
  case (Cons e gs)
  obtain k' g where e: "e = (k', g)" by (cases e)
  show ?case
  proof (cases "k' = k")
    case True
    have rest: "\<forall>e\<in>set gs. group_ok (txs @ [tx]) e"
    proof
      fix x assume x: "x \<in> set gs"
      then have "fst x \<noteq> k" using Cons.prems(5) e True by (auto simp: image_iff)
      moreover have "group_ok txs x" using Cons.prems(1) x by simp
      ultimately show "group_ok (txs @ [tx]) x"
        using Cons.prems(2) by (auto simp: group_ok_def group_of_snoc)
    qed
    have "group_ok txs (k, g)" using Cons.prems(1) e True by simp
    then have "group_ok (txs @ [tx]) (k, g\<lparr>transactions := transactions g @ [tx],
                  amounts := amounts g @ [amount tx], dates := dates g @ [date tx]\<rparr>)"
      using Cons.prems(2,3) by (simp add: group_ok_def group_of_snoc)
    with rest True e show ?thesis by simp
  next
    case False
    have "group_ok txs (k', g)" using Cons.prems(1) e by simp
    then have 1: "group_ok (txs @ [tx]) (k', g)"
      using False Cons.prems(2) by (auto simp: group_ok_def group_of_snoc)
    have 2: "\<forall>e\<in>set (group_push k tx gs). group_ok (txs @ [tx]) e"
      using Cons.IH Cons.prems e False by auto
    from 1 2 False e show ?thesis by simp
  qed
qed

lemma groupByMerchant_snoc:
  "groupByMerchant (txs @ [t]) = group_step (groupByMerchant txs) t"
  by (simp add: groupByMerchant_def)

lemma group_ok_skip:
  assumes "group_ok txs e" "merchant_id t = None \<or> merchant_id t = Some [] \<or> pending t"
  shows "group_ok (txs @ [t]) e"
  using assms by (auto simp: group_ok_def group_of_snoc)

lemma groups_inv_step: 
  assumes "groups_inv txs gs"
  shows "groups_inv (txs @ [t]) (group_step gs t)"
proof (cases "merchant_id t = None \<or> merchant_id t = Some [] \<or> pending t")
  case True
  then have "group_step gs t = gs" by (auto simp: group_step_def split: option.splits)
  moreover have "\<forall>k. k \<noteq> [] \<longrightarrow> group_of k (txs @ [t]) = group_of k txs"
    using True by (auto simp: group_of_snoc)
  ultimately show ?thesis using assms True
    by (auto simp: groups_inv_def intro: group_ok_skip)
next
  case False
  then obtain k where k: "merchant_id t = Some k" "k \<noteq> []" "\<not> pending t" by auto
  then have st: "group_step gs t = group_push k t gs" by (simp add: group_step_def)
  have "\<forall>e\<in>set (group_push k t gs). group_ok (txs @ [t]) e"
    using assms k by (intro group_push_ok) (auto simp: groups_inv_def)
  moreover have "distinct (map fst (group_push k t gs))"
    using assms by (simp add: groups_inv_def group_push_distinct)
  moreover have "\<forall>k'. k' \<notin> fst ` set (group_push k t gs) \<longrightarrow> k' \<noteq> [] \<longrightarrow> group_of k' (txs @ [t]) = []"
    using assms k by (auto simp: groups_inv_def group_push_fst group_of_snoc)
  ultimately show ?thesis by (simp add: groups_inv_def st)
qed

lemma groups_inv_groupByMerchant: "groups_inv txs (groupByMerchant txs)"
proof (induction txs rule: rev_induct)
  case Nil
  show ?case by (simp add: groups_inv_def groupByMerchant_def group_of_def)
next
  case (snoc t txs)
  then show ?case by (simp add: groupByMerchant_snoc groups_inv_step)
qed

lemma average_bounds:
  assumes "xs \<noteq> []" "\<forall>x\<in>set xs. lo \<le> x \<and> x \<le> hi"
  shows "lo \<le> average xs \<and> average xs \<le> hi"
proof -
  have n: "0 < real (length xs)" using assms(1) by simp
  have "sum_list xs \<le> sum_list (map (\<lambda>_. hi) xs)"
    using assms(2) sum_list_mono[of xs "\<lambda>x. x" "\<lambda>_. hi"] by simp
  then have hi: "sum_list xs \<le> real (length xs) * hi" by (simp add: sum_list_triv)
  have "sum_list (map (\<lambda>_. lo) xs) \<le> sum_list xs"
    using assms(2) sum_list_mono[of xs "\<lambda>_. lo" "\<lambda>x. x"] by simp
  then have lo: "real (length xs) * lo \<le> sum_list xs" by (simp add: sum_list_triv)
  show ?thesis
    using n lo hi by (simp add: average_def pos_le_divide_eq pos_divide_le_eq mult.commute)
qed

lemma detectFrequency_monthly:
  assumes "2 \<le> length ds"
    and "intervals_of (sort ds) \<noteq> []"
    and "\<forall>i\<in>set (intervals_of (sort ds)). 27 \<le> i \<and> i \<le> 35"
  shows "detectFrequency ds = Some (monthly, 1)"
proof -
  let ?ivs = "intervals_of (sort ds)"
  let ?avg = "average (map real_of_int ?ivs)"
  have avg: "27 \<le> ?avg \<and> ?avg \<le> 35"
    using assms(2,3) by (intro average_bounds) auto
  have "filter (\<lambda>i. 27 \<le> real_of_int i \<and> real_of_int i \<le> 35) ?ivs = ?ivs"
    using assms(3) by (intro filter_True) auto
  then have score: "pattern_score \<lparr>pat_frequency = monthly, minDays = 27, maxDays = 35, weight = 12 / 10\<rparr> ?ivs = 12 / 10"
    using assms(2) by (simp add: pattern_score_def matchingIntervals_def)
  have "foldl (pattern_step ?avg ?ivs) (None, 0) FREQUENCY_PATTERNS
        = (Some \<lparr>pat_frequency = monthly, minDays = 27, maxDays = 35, weight = 12 / 10\<rparr>, 12 / 10)"
    using avg score by (simp add: FREQUENCY_PATTERNS_def pattern_step_def)
  then show ?thesis
    using assms(1,2) by (simp add: detectFrequency_def MIN_TRANSACTIONS_def MIN_CONFIDENCE_def Let_def)
qed

lemma detect_monthly_exact:
  assumes "m \<noteq> []"
    and "27 \<le> d2 - d1" "d2 - d1 \<le> 35"
    and "27 \<le> d3 - d2" "d3 - d2 \<le> 35"
    and "27 \<le> d4 - d3" "d4 - d3 \<le> 35"
  shows "detectRecurringCharges
           [mkTx i1 m (1599 / 100) d1, mkTx i2 m (1599 / 100) d2,
            mkTx i3 m (1799 / 100) d3, mkTx i4 m (1799 / 100) d4]
         = [\<lparr>merchantId = m, frequency = monthly, confidence = 1,
              firstAmount = 1599 / 100, currentAmount = 1799 / 100,
              firstDate = d1, lastDate = d4, transactionCount = 4\<rparr>]"
proof -
  have ord: "d1 \<le> d2" "d2 \<le> d3" "d3 \<le> d4" "d1 \<le> d3" "d1 \<le> d4" "d2 \<le> d4"
    using assms by linarith+
  have srt: "sort [d1, d2, d3, d4] = [d1, d2, d3, d4]"
    using ord by simp
  have ivs: "intervals_of (sort [d1, d2, d3, d4]) = [d2 - d1, d3 - d2, d4 - d3]"
    unfolding srt by simp
  have freq: "detectFrequency [d1, d2, d3, d4] = Some (monthly, 1)"
  proof (rule detectFrequency_monthly)
    show "2 \<le> length [d1, d2, d3, d4]" by simp
    show "intervals_of (sort [d1, d2, d3, d4]) \<noteq> []" unfolding ivs by simp
    show "\<forall>i\<in>set (intervals_of (sort [d1, d2, d3, d4])). 27 \<le> i \<and> i \<le> 35"
      unfolding ivs using assms by simp
  qed
  have amt: "checkAmountConsistency [1599 / 100, 1599 / 100, 1799 / 100, 1799 / 100] = (True, 2 / 10)"
    by (simp add: checkAmountConsistency_def average_def within_tolerance_def AMOUNT_TOLERANCE_def)
  have grp: "groupByMerchant [mkTx i1 m (1599 / 100) d1, mkTx i2 m (1599 / 100) d2,
            mkTx i3 m (1799 / 100) d3, mkTx i4 m (1799 / 100) d4]
     = [(m, \<lparr>g_merchantId = m, transactions = [mkTx i1 m (1599 / 100) d1, mkTx i2 m (1599 / 100) d2,
            mkTx i3 m (1799 / 100) d3, mkTx i4 m (1799 / 100) d4],
            amounts = [1599 / 100, 1599 / 100, 1799 / 100, 1799 / 100], dates = [d1, d2, d3, d4]\<rparr>)]"
    using assms(1) by (simp add: groupByMerchant_def group_step_def mkTx_def)
  have stx: "sort_key date [mkTx i1 m (1599 / 100) d1, mkTx i2 m (1599 / 100) d2,
            mkTx i3 m (1799 / 100) d3, mkTx i4 m (1799 / 100) d4] = [mkTx i1 m (1599 / 100) d1, mkTx i2 m (1599 / 100) d2,
            mkTx i3 m (1799 / 100) d3, mkTx i4 m (1799 / 100) d4]"
    using ord by (simp add: mkTx_def)
  show ?thesis
    unfolding detectRecurringCharges_def grp
    using ord by (simp add: detect_group_def MIN_TRANSACTIONS_def freq amt mkTx_def)
qed

lemma pattern_score_bucket: "pattern_score p ivs = bucket_score p ivs"
  by (simp add: pattern_score_def bucket_score_def matchingIntervals_def in_bucket_def)

lemma pattern_fold_inv:
  assumes "fst b = None \<or> (\<exists>p\<in>S. fst b = Some p \<and> in_bucket p avg \<and> snd b = bucket_score p ivs)"
  shows "fst (foldl (pattern_step avg ivs) b ps) = None \<or>
         (\<exists>p\<in>S \<union> set ps. fst (foldl (pattern_step avg ivs) b ps) = Some p \<and> in_bucket p avg \<and>
            snd (foldl (pattern_step avg ivs) b ps) = bucket_score p ivs)"
  using assms
proof (induction ps arbitrary: b S)
  case Nil
  then show ?case by simp
next
  case (Cons q ps)
  have "fst (pattern_step avg ivs b q) = None \<or>
        (\<exists>p\<in>insert q S. fst (pattern_step avg ivs b q) = Some p \<and> in_bucket p avg \<and>
           snd (pattern_step avg ivs b q) = bucket_score p ivs)"
    using Cons.prems
    by (auto simp: pattern_step_def Let_def pattern_score_bucket in_bucket_def)
  from Cons.IH [OF this] show ?case by simp
qed

lemma detectFrequency_Some:
  assumes "detectFrequency ds = Some fr"
  shows "2 \<le> length ds \<and> 1 / 2 \<le> snd fr \<and> snd fr \<le> 1 \<and>
         (\<exists>p\<in>set FREQUENCY_PATTERNS.
            in_bucket p (average (map real_of_int (intervals_of (sort ds)))) \<and>
            1 / 2 \<le> bucket_score p (intervals_of (sort ds)))"
proof -
  let ?ivs = "intervals_of (sort ds)"
  let ?avg = "average (map real_of_int ?ivs)"
  let ?best = "foldl (pattern_step ?avg ?ivs) (None, 0) FREQUENCY_PATTERNS"
  have len: "2 \<le> length ds"
    using assms by (auto simp: detectFrequency_def MIN_TRANSACTIONS_def split: if_splits)
  from assms obtain bm where bm: "fst ?best = Some bm" "\<not> snd ?best < 1 / 2"
      "fr = (pat_frequency bm, min (snd ?best) 1)"
    by (auto simp: detectFrequency_def Let_def MIN_CONFIDENCE_def split: if_splits option.splits)
  have "fst ?best = None \<or>
         (\<exists>p\<in>{} \<union> set FREQUENCY_PATTERNS. fst ?best = Some p \<and> in_bucket p ?avg \<and>
            snd ?best = bucket_score p ?ivs)"
    by (rule pattern_fold_inv) simp
  with bm obtain p where "p \<in> set FREQUENCY_PATTERNS" "in_bucket p ?avg" "snd ?best = bucket_score p ?ivs"
    by auto
  with bm len show ?thesis by auto
qed

lemma checkAmountConsistency_True:
  assumes "fst (checkAmountConsistency as)"
  shows "2 \<le> length as \<and> 0 \<le> snd (checkAmountConsistency as)"
proof -
  have len: "2 \<le> length as"
    using assms by (auto simp: checkAmountConsistency_def split: if_splits)
  let ?ratio = "real (length (filter (within_tolerance (average as)) as)) / real (length as)"
  have r: "7 / 10 \<le> ?ratio"
    using assms len by (simp add: checkAmountConsistency_def Let_def)
  have boost: "snd (checkAmountConsistency as) = ?ratio * (2 / 10)"
    using len by (simp add: checkAmountConsistency_def Let_def)
  from len r boost show ?thesis by auto
qed

lemma detect_group_mem:
  assumes "c \<in> set (detect_group (k, g))"
  shows "merchantId c = k \<and> 2 \<le> length (transactions g) \<and>
         (\<exists>fr. detectFrequency (dates g) = Some fr \<and>
               confidence c = min (snd fr + snd (checkAmountConsistency (amounts g))) 1) \<and>
         fst (checkAmountConsistency (amounts g)) \<and>
         transactionCount c = length (transactions g) \<and>
         firstDate c = sort (dates g) ! 0 \<and>
         lastDate c = sort (dates g) ! (length (sort (dates g)) - 1)"
proof (cases "detectFrequency (dates g)")
  case None
  with assms show ?thesis
    by (simp add: detect_group_def MIN_TRANSACTIONS_def Let_def split: if_splits)
next
  case (Some fr)
  with assms show ?thesis
    by (simp add: detect_group_def MIN_TRANSACTIONS_def Let_def split: if_splits)
qed

lemma detect_mem:
  assumes "c \<in> set (detectRecurringCharges txs)"
  shows "\<exists>g. c \<in> set (detect_group (merchantId c, g)) \<and>
             transactions g = group_of (merchantId c) txs \<and>
             amounts g = map amount (transactions g) \<and>
             dates g = map date (transactions g)"
proof -
  from assms obtain k g where kg: "(k, g) \<in> set (groupByMerchant txs)" "c \<in> set (detect_group (k, g))"
    by (auto simp: detectRecurringCharges_def)
  have "group_ok txs (k, g)"
    using groups_inv_groupByMerchant [of txs] kg(1) by (auto simp: groups_inv_def)
  moreover have "merchantId c = k" using detect_group_mem [OF kg(2)] by simp
  ultimately show ?thesis using kg(2) by (auto simp: group_ok_def)
qed

lemma sort_first_last:
  fixes ds :: "int list"
  assumes "ds \<noteq> []"
  shows "sort ds ! 0 \<le> sort ds ! (length (sort ds) - 1)"
proof -
  have "sorted (sort ds)" by simp
  moreover have "length (sort ds) - 1 < length (sort ds)" using assms by simp
  ultimately show ?thesis by (intro sorted_nth_mono) auto
qed

text \<open>
  Claim C9. Every candidate emitted by \<open>detectRecurringCharges\<close>, for every input
  list, has a confidence in the closed interval from 0.5 to 1, a transaction count of
  at least 2, and a first date that is not after its last date.
\<close>

theorem C9_candidate_invariants:
  "\<forall>c\<in>set (detectRecurringCharges txs).
     1 / 2 \<le> confidence c \<and> confidence c \<le> 1 \<and> 2 \<le> transactionCount c \<and> firstDate c \<le> lastDate c"
proof
  fix c assume "c \<in> set (detectRecurringCharges txs)"
  from detect_mem [OF this] obtain g where g: "c \<in> set (detect_group (merchantId c, g))" by blast
  from detect_group_mem [OF g] obtain fr where
    fr: "detectFrequency (dates g) = Some fr"
        "confidence c = min (snd fr + snd (checkAmountConsistency (amounts g))) 1"
    and cons: "fst (checkAmountConsistency (amounts g))"
    and cnt: "transactionCount c = length (transactions g)" "2 \<le> length (transactions g)"
    and fl: "firstDate c = sort (dates g) ! 0" "lastDate c = sort (dates g) ! (length (sort (dates g)) - 1)"
    by blast
  from detectFrequency_Some [OF fr(1)] have f: "1 / 2 \<le> snd fr" "2 \<le> length (dates g)" by auto
  from checkAmountConsistency_True [OF cons] have b: "0 \<le> snd (checkAmountConsistency (amounts g))" by simp
  have "dates g \<noteq> []" using f(2) by auto
  then have "firstDate c \<le> lastDate c" unfolding fl by (rule sort_first_last)
  moreover have "1 / 2 \<le> confidence c" "confidence c \<le> 1" using f(1) b fr(2) by auto
  ultimately show "1 / 2 \<le> confidence c \<and> confidence c \<le> 1 \<and> 2 \<le> transactionCount c \<and> firstDate c \<le> lastDate c"
    using cnt by simp
qed

theorem C9_candidate_invariants_witness:
  "\<lparr>merchantId = ''netflix'', frequency = monthly, confidence = 1,
     firstAmount = 1599 / 100, currentAmount = 1799 / 100,
     firstDate = 0, lastDate = 91, transactionCount = 4\<rparr>
     \<in> set (detectRecurringCharges
               [mkTx ''t1'' ''netflix'' (1599 / 100) 0, mkTx ''t2'' ''netflix'' (1599 / 100) 30,
                mkTx ''t3'' ''netflix'' (1799 / 100) 61, mkTx ''t4'' ''netflix'' (1799 / 100) 91])
   \<and> 1 / 2 \<le> (1::real) \<and> (1::real) \<le> 1 \<and> (2::nat) \<le> 4 \<and> (0::int) \<le> 91"
proof -
  let ?txs = "[mkTx ''t1'' ''netflix'' (1599 / 100) 0, mkTx ''t2'' ''netflix'' (1599 / 100) 30,
               mkTx ''t3'' ''netflix'' (1799 / 100) 61, mkTx ''t4'' ''netflix'' (1799 / 100) 91]"
  let ?c = "\<lparr>merchantId = ''netflix'', frequency = monthly, confidence = 1,
     firstAmount = 1599 / 100, currentAmount = 1799 / 100,
     firstDate = 0, lastDate = 91, transactionCount = 4\<rparr>"
  have "detectRecurringCharges ?txs = [?c]"
    by (rule detect_monthly_exact) simp_all
  then have mem: "?c \<in> set (detectRecurringCharges ?txs)"
    by simp
  from C9_candidate_invariants [of ?txs] mem
  have "1 / 2 \<le> confidence ?c \<and> confidence ?c \<le> 1 \<and> 2 \<le> transactionCount ?c
        \<and> firstDate ?c \<le> lastDate ?c"
    by (rule bspec)
  with mem show ?thesis by simp
qed

text \<open>
  The conditions on the size of a group and on its intervals do suppress the
  candidate: no candidate is emitted for a merchant whose group has fewer than 2
  non-pending transactions, or whose mean interval lies in no frequency bucket, or
  whose buckets holding the mean interval all score below 0.5.
\<close>

lemma no_candidate_by_frequency:
  assumes "length (group_of m txs) < 2
         \<or> (\<forall>p\<in>set FREQUENCY_PATTERNS.
               \<not> in_bucket p (average (map real_of_int (group_intervals m txs))))
         \<or> (\<forall>p\<in>set FREQUENCY_PATTERNS.
               in_bucket p (average (map real_of_int (group_intervals m txs)))
                 \<longrightarrow> bucket_score p (group_intervals m txs) < 1 / 2)"
  shows "\<forall>c\<in>set (detectRecurringCharges txs). merchantId c \<noteq> m"
proof
  fix c assume c: "c \<in> set (detectRecurringCharges txs)"
  show "merchantId c \<noteq> m"
  proof
    assume m: "merchantId c = m"
    from detect_mem [OF c] m obtain g where g: "c \<in> set (detect_group (m, g))"
      and tr: "transactions g = group_of m txs" "amounts g = map amount (transactions g)"
              "dates g = map date (transactions g)" by blast
    from detect_group_mem [OF g] obtain fr where
      fr: "detectFrequency (dates g) = Some fr"
      and cnt: "2 \<le> length (transactions g)"
      by blast
    from detectFrequency_Some [OF fr] obtain p where p: "p \<in> set FREQUENCY_PATTERNS"
        "in_bucket p (average (map real_of_int (group_intervals m txs)))"
        "1 / 2 \<le> bucket_score p (group_intervals m txs)"
      unfolding group_intervals_def tr by auto
    from assms cnt p show False unfolding tr by auto
  qed
qed


subsection \<open>The order of the input list\<close>

lemma groupByMerchant_single:
  assumes "m \<noteq> []" "\<forall>t\<in>set txs. merchant_id t = Some m \<and> \<not> pending t"
  shows "groupByMerchant txs =
           (if txs = [] then []
            else [(m, \<lparr>g_merchantId = m, transactions = txs,
                        amounts = map amount txs, dates = map date txs\<rparr>)])"
  using assms(2)
proof (induction txs rule: rev_induct)
  case Nil
  show ?case by (simp add: groupByMerchant_def)
next
  case (snoc t txs)
  then have t: "merchant_id t = Some m" "\<not> pending t" by auto
  have "groupByMerchant txs =
           (if txs = [] then []
            else [(m, \<lparr>g_merchantId = m, transactions = txs,
                        amounts = map amount txs, dates = map date txs\<rparr>)])"
    using snoc by simp
  then show ?case
    using t assms(1) by (simp add: groupByMerchant_snoc group_step_def)
qed

lemma checkAmountConsistency_mset:
  assumes "mset xs = mset ys"
  shows "checkAmountConsistency xs = checkAmountConsistency ys"
proof -
  have len: "length xs = length ys" using assms by (rule mset_eq_length)
  have sum: "sum_list xs = sum_list ys"
    using assms by (metis sum_mset_sum_list)
  have avg: "average xs = average ys" by (simp add: average_def len sum)
  have "length (filter P xs) = length (filter P ys)" for P
    using assms by (metis mset_filter size_mset)
  then show ?thesis
    by (simp add: checkAmountConsistency_def len avg Let_def)
qed

lemma sort_mset: "mset xs = mset ys \<Longrightarrow> sort xs = sort ys"
  by (metis properties_for_sort sorted_sort mset_sort)

lemma filter_eq_distinct: "distinct ys \<Longrightarrow> k \<in> set ys \<Longrightarrow> filter (\<lambda>x. x = k) ys = [k]"
proof (induction ys)
  case Nil
  then show ?case by simp
next
  case (Cons y ys)
  show ?case
  proof (cases "y = k")
    case True
    then have "filter (\<lambda>x. x = k) ys = []" using Cons.prems by (auto simp: filter_empty_conv)
    with True show ?thesis by simp
  next
    case False
    with Cons show ?thesis by simp
  qed
qed

lemma mset_single_list: "mset zs = {#k#} \<Longrightarrow> zs = [k]"
  by (cases zs) auto

lemma sort_key_distinct_mset:
  assumes "mset xs = mset ys" "sorted (map f ys)" "distinct (map f ys)"
  shows "sort_key f xs = ys"
proof (rule properties_for_sort_key)
  show "mset ys = mset xs" using assms(1) by simp
  show "sorted (map f ys)" by (rule assms(2))
  fix k assume k: "k \<in> set ys"
  have inj: "inj_on f (set ys)" using assms(3) by (simp add: distinct_map)
  have dy: "distinct ys" using assms(3) by (simp add: distinct_map)
  have "filter (\<lambda>x. f k = f x) ys = filter (\<lambda>x. x = k) ys"
    using inj k by (intro filter_cong) (auto dest: inj_onD)
  also have "\<dots> = [k]" using dy k by (rule filter_eq_distinct)
  finally have fy: "filter (\<lambda>x. f k = f x) ys = [k]" .
  have "mset (filter (\<lambda>x. f k = f x) xs) = mset (filter (\<lambda>x. f k = f x) ys)"
    using assms(1) by simp
  then have "mset (filter (\<lambda>x. f k = f x) xs) = {#k#}" using fy by simp
  then have "filter (\<lambda>x. f k = f x) xs = [k]" by (rule mset_single_list)
  with fy show "filter (\<lambda>x. f k = f x) ys = filter (\<lambda>x. f k = f x) xs" by simp
qed


lemma detectFrequency_mset:
  assumes "mset ds = mset es"
  shows "detectFrequency ds = detectFrequency es"
proof -
  have "length ds = length es" using assms by (rule mset_eq_length)
  moreover have "sort ds = sort es" using assms by (rule sort_mset)
  ultimately show ?thesis by (simp add: detectFrequency_def)
qed

lemma detect_group_mset:
  assumes "mset txs = mset ts" "sorted (map date ts)" "distinct (map date ts)"
  shows "detect_group (m, \<lparr>g_merchantId = m, transactions = txs,
                             amounts = map amount txs, dates = map date txs\<rparr>)
       = detect_group (m, \<lparr>g_merchantId = m, transactions = ts,
                             amounts = map amount ts, dates = map date ts\<rparr>)"
proof -
  have len: "length txs = length ts" using assms(1) by (rule mset_eq_length)
  have md: "mset (map date txs) = mset (map date ts)" using assms(1) by simp
  have ma: "mset (map amount txs) = mset (map amount ts)" using assms(1) by simp
  have f: "detectFrequency (map date txs) = detectFrequency (map date ts)"
    using md by (rule detectFrequency_mset)
  have c: "checkAmountConsistency (map amount txs) = checkAmountConsistency (map amount ts)"
    using ma by (rule checkAmountConsistency_mset)
  have sd: "sort (map date txs) = sort (map date ts)" using md by (rule sort_mset)
  have st: "sort_key date txs = ts" using assms by (rule sort_key_distinct_mset)
  have st': "sort_key date ts = ts" using assms(2) by (rule sort_key_sorted_id)
  show ?thesis
  proof (cases "detectFrequency (map date ts)")
    case None
    then show ?thesis by (simp add: detect_group_def Let_def len f)
  next
    case (Some fr)
    then show ?thesis by (simp add: detect_group_def Let_def len f c sd st st')
  qed
qed

lemma detect_single_merchant_mset:
  assumes "m \<noteq> []" "\<forall>t\<in>set ts. merchant_id t = Some m \<and> \<not> pending t"
    and "mset txs = mset ts" "sorted (map date ts)" "distinct (map date ts)"
  shows "detectRecurringCharges txs = detectRecurringCharges ts"
proof -
  have set: "set txs = set ts" using assms(3) by (rule mset_eq_setD)
  have 1: "groupByMerchant ts =
           (if ts = [] then []
            else [(m, \<lparr>g_merchantId = m, transactions = ts,
                        amounts = map amount ts, dates = map date ts\<rparr>)])"
    using assms(1,2) by (rule groupByMerchant_single)
  have 2: "groupByMerchant txs =
           (if txs = [] then []
            else [(m, \<lparr>g_merchantId = m, transactions = txs,
                        amounts = map amount txs, dates = map date txs\<rparr>)])"
    using assms(1,2) unfolding set [symmetric] by (rule groupByMerchant_single)
  have e: "txs = [] \<longleftrightarrow> ts = []" using set by (metis set_empty)
  show ?thesis
    unfolding detectRecurringCharges_def 1 2
    using e detect_group_mset [OF assms(3,4,5), of m] by simp
qed

text \<open>
  Claim C1. Four non-pending transactions of one merchant with the amounts 15.99,
  15.99, 17.99 and 17.99 in date order, each consecutive pair of dates between 27 and 35
  days apart, given as a list in any order, give exactly one candidate: that merchant,
  monthly, confidence at least 0.5, first amount 15.99, current amount 17.99,
  transaction count 4.
\<close>

theorem C1_monthly_candidate:
  assumes "m \<noteq> []"
    and "27 \<le> d2 - d1 \<and> d2 - d1 \<le> 35"
    and "27 \<le> d3 - d2 \<and> d3 - d2 \<le> 35"
    and "27 \<le> d4 - d3 \<and> d4 - d3 \<le> 35"
    and "mset txs = mset [mkTx i1 m (1599 / 100) d1, mkTx i2 m (1599 / 100) d2,
                          mkTx i3 m (1799 / 100) d3, mkTx i4 m (1799 / 100) d4]"
  shows "\<exists>c. detectRecurringCharges txs = [c]
             \<and> merchantId c = m \<and> frequency c = monthly \<and> 1 / 2 \<le> confidence c
             \<and> firstAmount c = 1599 / 100 \<and> currentAmount c = 1799 / 100
             \<and> transactionCount c = 4"
proof -
  let ?ts = "[mkTx i1 m (1599 / 100) d1, mkTx i2 m (1599 / 100) d2,
              mkTx i3 m (1799 / 100) d3, mkTx i4 m (1799 / 100) d4]"
  have ex: "detectRecurringCharges ?ts
         = [\<lparr>merchantId = m, frequency = monthly, confidence = 1,
              firstAmount = 1599 / 100, currentAmount = 1799 / 100,
              firstDate = d1, lastDate = d4, transactionCount = 4\<rparr>]"
    using assms(1-4) by (intro detect_monthly_exact) auto
  have "detectRecurringCharges txs = detectRecurringCharges ?ts"
  proof (rule detect_single_merchant_mset [OF assms(1) _ assms(5)])
    show "\<forall>t\<in>set ?ts. merchant_id t = Some m \<and> \<not> pending t" by (simp add: mkTx_def)
    show "sorted (map date ?ts)" using assms(2-4) by (simp add: mkTx_def)
    show "distinct (map date ?ts)" using assms(2-4) by (simp add: mkTx_def)
  qed
  with ex show ?thesis by simp
qed

theorem C1_monthly_candidate_witness:
  "''netflix'' \<noteq> [] \<and> (27 \<le> 30 - (0::int) \<and> 30 - (0::int) \<le> 35)
   \<and> (27 \<le> 61 - (30::int) \<and> 61 - (30::int) \<le> 35)
   \<and> (27 \<le> 91 - (61::int) \<and> 91 - (61::int) \<le> 35)
   \<and> mset [mkTx ''t3'' ''netflix'' (1799 / 100) 61, mkTx ''t1'' ''netflix'' (1599 / 100) 0,
            mkTx ''t4'' ''netflix'' (1799 / 100) 91, mkTx ''t2'' ''netflix'' (1599 / 100) 30]
       = mset [mkTx ''t1'' ''netflix'' (1599 / 100) 0, mkTx ''t2'' ''netflix'' (1599 / 100) 30,
               mkTx ''t3'' ''netflix'' (1799 / 100) 61, mkTx ''t4'' ''netflix'' (1799 / 100) 91]
   \<and> (\<exists>c. detectRecurringCharges
               [mkTx ''t3'' ''netflix'' (1799 / 100) 61, mkTx ''t1'' ''netflix'' (1599 / 100) 0,
                mkTx ''t4'' ''netflix'' (1799 / 100) 91, mkTx ''t2'' ''netflix'' (1599 / 100) 30] = [c]
             \<and> merchantId c = ''netflix'' \<and> frequency c = monthly \<and> 1 / 2 \<le> confidence c
             \<and> firstAmount c = 1599 / 100 \<and> currentAmount c = 1799 / 100
             \<and> transactionCount c = 4)"
proof -
  have p: "mset [mkTx ''t3'' ''netflix'' (1799 / 100) 61, mkTx ''t1'' ''netflix'' (1599 / 100) 0,
            mkTx ''t4'' ''netflix'' (1799 / 100) 91, mkTx ''t2'' ''netflix'' (1599 / 100) 30]
       = mset [mkTx ''t1'' ''netflix'' (1599 / 100) 0, mkTx ''t2'' ''netflix'' (1599 / 100) 30,
               mkTx ''t3'' ''netflix'' (1799 / 100) 61, mkTx ''t4'' ''netflix'' (1799 / 100) 91]"
    by simp
  have i: "27 \<le> 30 - (0::int) \<and> 30 - (0::int) \<le> 35" "27 \<le> 61 - (30::int) \<and> 61 - (30::int) \<le> 35"
    "27 \<le> 91 - (61::int) \<and> 91 - (61::int) \<le> 35" "''netflix'' \<noteq> []"
    by simp_all
  from C1_monthly_candidate [OF i(4) i(1) i(2) i(3) p] p i show ?thesis by blast
qed

section \<open>Properties of the drift calculator\<close>

lemma price_loop_pairs:
  "price_loop rc s =
     map (price_event rc)
       (filter (\<lambda>pc. 1 < \<bar>change_percent (amount (fst pc)) (amount (snd pc))\<bar>) (adjacent_pairs s))"
proof (induction rc s rule: price_loop.induct)
  case (1 rc prv cur rest)
  then show ?case
    by (simp add: adjacent_pairs_def price_step_def price_event_def change_percent_def Let_def)
qed (simp_all add: adjacent_pairs_def)

lemma detectPriceChanges_general:
  "detectPriceChanges txs rc =
     map (price_event rc)
       (filter (\<lambda>pc. 1 < \<bar>change_percent (amount (fst pc)) (amount (snd pc))\<bar>)
          (adjacent_pairs (sort_key date
             (filter (\<lambda>tx. merchant_id tx = Some (rc_merchant_id rc) \<and> \<not> pending tx) txs))))"
proof -
  have short: "adjacent_pairs s = []" if "length s < 2" for s :: "Transaction list"
    using that by (cases s; cases "tl s") (auto simp: adjacent_pairs_def)
  show ?thesis
    by (simp add: detectPriceChanges_def Let_def price_loop_pairs short)
qed

text \<open>
  Claim C3. On a date-sorted list of non-pending transactions of the charge's merchant,
  \<open>detectPriceChanges\<close> returns, in order, one event for each adjacent pair whose
  change percent is above 1 in absolute value, and for no other pair. The change percent
  is \<open>(curr - prev) / prev * 100\<close> when the previous amount is positive and 0 when the
  previous amount is 0, so a pair whose previous amount is 0 yields no event.
\<close>

theorem C3_price_change_events:
  assumes "sorted (map date txs)"
    and "\<forall>tx\<in>set txs. merchant_id tx = Some (rc_merchant_id rc) \<and> \<not> pending tx"
  shows "detectPriceChanges txs rc =
           map (price_event rc)
             (filter (\<lambda>pc. 1 < \<bar>change_percent (amount (fst pc)) (amount (snd pc))\<bar>)
                (adjacent_pairs txs))
         \<and> (\<forall>prv cur. 0 < prv \<longrightarrow> change_percent prv cur = (cur - prv) / prv * 100)
         \<and> (\<forall>cur. change_percent 0 cur = 0)"
proof -
  have "filter (\<lambda>tx. merchant_id tx = Some (rc_merchant_id rc) \<and> \<not> pending tx) txs = txs"
    using assms(2) by (intro filter_True) auto
  then show ?thesis
    using assms(1) by (simp add: detectPriceChanges_general sort_key_sorted_id change_percent_def)
qed

theorem C3_price_change_events_witness:
  "sorted (map date [mkTx ''a'' ''m'' (1599 / 100) 0, mkTx ''b'' ''m'' (1599 / 100) 30,
                     mkTx ''c'' ''m'' (1799 / 100) 60, mkTx ''d'' ''m'' 0 90, mkTx ''e'' ''m'' 5 120])
   \<and> detectPriceChanges
        [mkTx ''a'' ''m'' (1599 / 100) 0, mkTx ''b'' ''m'' (1599 / 100) 30,
         mkTx ''c'' ''m'' (1799 / 100) 60, mkTx ''d'' ''m'' 0 90, mkTx ''e'' ''m'' 5 120]
        \<lparr>rc_id = ''r'', rc_merchant_id = ''m''\<rparr>
      = [\<lparr>recurringChargeId = ''r'', pc_merchantId = ''m'',
           previousAmount = 1599 / 100, newAmount = 1799 / 100, changeAmount = 2,
           changePercent = 20000 / 1599, detectedAt = 60, transactionId = ''c''\<rparr>,
         \<lparr>recurringChargeId = ''r'', pc_merchantId = ''m'',
           previousAmount = 1799 / 100, newAmount = 0, changeAmount = - (1799 / 100),
           changePercent = - 100, detectedAt = 90, transactionId = ''d''\<rparr>]"
  using C3_price_change_events
          [of "[mkTx ''a'' ''m'' (1599 / 100) 0, mkTx ''b'' ''m'' (1599 / 100) 30,
                mkTx ''c'' ''m'' (1799 / 100) 60, mkTx ''d'' ''m'' 0 90, mkTx ''e'' ''m'' 5 120]"
              "\<lparr>rc_id = ''r'', rc_merchant_id = ''m''\<rparr>"]
  by (simp add: mkTx_def adjacent_pairs_def price_event_def change_percent_def)

text \<open>
  Claim C2. \<open>calculateDriftMetrics\<close> returns the annualized increase
  \<open>((current / first) ^ (12 / monthsTracked) - 1) * 100\<close> when the first amount and the
  months tracked are positive and 0 otherwise, the percent change
  \<open>(current - first) / first * 100\<close> when the first amount is positive and 0 otherwise.
  The function has no failing branch: it returns a record for every input.
\<close>

theorem C2_drift_metrics:
  "calculateDriftMetrics months fa ca fd ld =
     \<lparr>totalChange = ca - fa,
      percentChange = (if 0 < fa then (ca - fa) / fa * 100 else 0),
      annualizedIncrease =
        (if 0 < fa \<and> 0 < months ld fd
         then map_option (\<lambda>p. (p - 1) * 100)
                (Math_pow (ca / fa) (12 / real_of_int (months ld fd)))
         else Some 0),
      monthsTracked = months ld fd\<rparr>
   \<and> (0 < fa \<and> 0 \<le> ca \<and> 0 < months ld fd \<longrightarrow>
        annualizedIncrease (calculateDriftMetrics months fa ca fd ld)
          = Some (((ca / fa) powr (12 / real_of_int (months ld fd)) - 1) * 100))"
  by (simp add: calculateDriftMetrics_def Let_def Math_pow_def)

theorem C2_drift_metrics_witness:
  "(0::real) < 1599 / 100 \<and> (0::real) \<le> 1799 / 100 \<and> (0::int) < 3
   \<and> annualizedIncrease (calculateDriftMetrics (\<lambda>l f. 3) (1599 / 100) (1799 / 100) (0::int) 90)
       = Some (((1799 / 1599) ^ 4 - 1) * 100)
   \<and> percentChange (calculateDriftMetrics (\<lambda>l f. 3) (1599 / 100) (1799 / 100) (0::int) 90)
       = 20000 / 1599"
  using C2_drift_metrics [where months = "\<lambda>l f. 3" and fa = "1599 / 100" and ca = "1799 / 100"
                           and fd = "0::int" and ld = 90]
  by (simp add: Math_pow_def)

section \<open>Properties of the CSV adapter\<close>

lemmas csv_defs = parseCSV_def split_lines_def strip_cr_def trim_def is_space_def detectDelimiter_def
  count_step_def count_char_def splitCSVLine_def looksLikeDate_def looksLikeAmount_def is_iso_date_def
  digits_between_def is_digit_def remove_chars_def detectColumns_def normalize_header_def toLowerCase_def
  toLowerCase_char_def upper_case_letters_def lower_case_letters_def header_step_def scan_init_def detectColumnsFromData_def data_step_def
  parse_row_def field_at_def or_else_def parseDate_def padStart2_def digits_val_def digit_val_def
  row_amount_def parseAmount_def startsWith_endsWith_paren_def parseFloat_def unsigned_literal_def
  exponent_of_def pow10_def

lemma count_fold:
  "foldl count_step (a, b) ls =
     (a + sum_list (map (count_char (CHR 0x09)) ls), b + sum_list (map (count_char (CHR '','')) ls))"
  by (induction ls arbitrary: a b) (simp_all add: count_step_def)

lemma detectDelimiter_eq:
  "detectDelimiter lines =
     (if sample_count (CHR '','') lines < sample_count (CHR 0x09) lines
         \<and> length (take 5 lines) \<le> sample_count (CHR 0x09) lines
      then CHR 0x09 else CHR '','')"
  by (simp add: detectDelimiter_def Let_def count_fold sample_count_def)

lemma tabs_per_line:
  assumes "\<forall>l\<in>set ls. CHR 0x09 \<in> set l"
  shows "length ls \<le> sum_list (map (count_char (CHR 0x09)) ls)"
  using assms
proof (induction ls)
  case Nil
  show ?case by simp
next
  case (Cons l ls)
  have "CHR 0x09 \<in> set l" using Cons.prems by simp
  then have "filter (\<lambda>x. x = CHR 0x09) l \<noteq> []"
    by (simp add: filter_empty_conv)
  then have "1 \<le> count_char (CHR 0x09) l"
    by (simp add: count_char_def Suc_le_eq)
  moreover have "length ls \<le> sum_list (map (count_char (CHR 0x09)) ls)"
    using Cons by simp
  ultimately show ?case by simp
qed

text \<open>
  Claim C8, amended. \<open>detectDelimiter\<close> selects the tab exactly when, over the first
  5 of the lines it is given, the tabs outnumber the commas and there are at least as
  many tabs as sampled lines (one per line on average); in every other case it selects
  the comma. In particular a sample with a tab in every line and more tabs than commas
  selects the tab.
\<close>

theorem C8_delimiter:
  "detectDelimiter lines =
     (if sample_count (CHR '','') lines < sample_count (CHR 0x09) lines
         \<and> length (take 5 lines) \<le> sample_count (CHR 0x09) lines
      then CHR 0x09 else CHR '','')
   \<and> ((\<forall>l\<in>set (take 5 lines). CHR 0x09 \<in> set l)
        \<and> sample_count (CHR '','') lines < sample_count (CHR 0x09) lines
        \<longrightarrow> detectDelimiter lines = CHR 0x09)"
  using tabs_per_line [of "take 5 lines"]
  by (simp add: detectDelimiter_eq sample_count_def)

theorem C8_delimiter_witness:
  "sample_count (CHR '','') [[CHR ''a'', CHR 0x09, CHR ''b''], [CHR ''c'', CHR 0x09, CHR ''d'']]
     < sample_count (CHR 0x09) [[CHR ''a'', CHR 0x09, CHR ''b''], [CHR ''c'', CHR 0x09, CHR ''d'']]
   \<and> CHR 0x09 \<in> set [CHR ''a'', CHR 0x09, CHR ''b''] \<and> CHR 0x09 \<in> set [CHR ''c'', CHR 0x09, CHR ''d'']
   \<and> detectDelimiter [[CHR ''a'', CHR 0x09, CHR ''b''], [CHR ''c'', CHR 0x09, CHR ''d'']] = CHR 0x09"
  using C8_delimiter [of "[[CHR ''a'', CHR 0x09, CHR ''b''], [CHR ''c'', CHR 0x09, CHR ''d'']]"]
  by (simp add: sample_count_def count_char_def)

text \<open>
  Claim C8 as stated fails: the source compares the total number of tabs with the number
  of sampled lines, so a line without any tab does not keep the tab from being selected.
  Of the two lines below the second has no tab, and the tab is selected.
\<close>

theorem C8_counterexample:
  "detectDelimiter [[CHR ''a'', CHR 0x09, CHR ''b'', CHR 0x09, CHR ''c''], ''x''] = CHR 0x09
   \<and> ''x'' \<in> set (take 5 [[CHR ''a'', CHR 0x09, CHR ''b'', CHR 0x09, CHR ''c''], ''x''])
   \<and> CHR 0x09 \<notin> set ''x''"
  by (simp add: detectDelimiter_eq sample_count_def count_char_def)

subsection \<open>Amounts of the parsed transactions\<close>

lemma Math_abs_positive: "amt \<noteq> Fin 0 \<Longrightarrow> is_positive (Math_abs amt)"
  by (cases amt) auto

lemma parse_row_eq:
  "parse_row df mp delim st (i, line) =
     (if trim line = [] then st
      else (case row_date df mp (splitCSVLine (trim line) delim) of
              None \<Rightarrow> st\<lparr>csv_errors := csv_errors st @
                             [InvalidDate (i + 1) (field_at (splitCSVLine (trim line) delim) (dateIndex mp))],
                          csv_skipped := csv_skipped st + 1\<rparr>
            | Some dt \<Rightarrow>
                if row_description mp (splitCSVLine (trim line) delim) = []
                then st\<lparr>csv_skipped := csv_skipped st + 1\<rparr>
                else (case row_amount mp (splitCSVLine (trim line) delim) of
                        None \<Rightarrow> st\<lparr>csv_errors := csv_errors st @ [InvalidAmount (i + 1)],
                                    csv_skipped := csv_skipped st + 1\<rparr>
                      | Some amt \<Rightarrow>
                          if amt = Fin 0 then st\<lparr>csv_skipped := csv_skipped st + 1\<rparr>
                          else st\<lparr>csv_transactions := csv_transactions st @
                                   [\<lparr>p_date = dt,
                                     p_description = row_description mp (splitCSVLine (trim line) delim),
                                     p_amount = Math_abs amt, rawLine = trim line\<rparr>]\<rparr>)))"
  by (simp add: parse_row_def row_date_def row_description_def Let_def split: option.splits)

lemma parse_row_positive:
  assumes "\<forall>t\<in>set (csv_transactions st). is_positive (p_amount t)"
  shows "\<forall>t\<in>set (csv_transactions (parse_row df mp delim st il)). is_positive (p_amount t)"
proof -
  obtain i line where il: "il = (i, line)" by (cases il)
  show ?thesis
    unfolding il parse_row_eq using assms
    by (auto split: option.splits simp: Math_abs_positive)
qed

lemma parse_rows_positive:
  assumes "\<forall>t\<in>set (csv_transactions st). is_positive (p_amount t)"
  shows "\<forall>t\<in>set (csv_transactions (foldl (parse_row df mp delim) st rows)). is_positive (p_amount t)"
  using assms
proof (induction rows arbitrary: st)
  case Nil
  then show ?case by simp
next
  case (Cons r rows)
  have "\<forall>t\<in>set (csv_transactions (parse_row df mp delim st r)). is_positive (p_amount t)"
    using Cons.prems by (rule parse_row_positive)
  from Cons.IH [OF this] show ?case by simp
qed

lemma parseCSV_positive:
  "\<forall>t\<in>set (csv_transactions (parseCSV df dtm content)). is_positive (p_amount t)"
proof -
  have "\<forall>t\<in>set (csv_transactions (foldl (parse_row df mp delim)
            \<lparr>csv_transactions = [], csv_errors = [], csv_skipped = 0\<rparr> rows)). is_positive (p_amount t)"
    for mp delim rows
    by (rule parse_rows_positive) simp
  then show ?thesis
    by (auto simp: parseCSV_def Let_def split: option.splits)
qed

lemma parse_row_zero:
  assumes "row_ready df mp delim line" "row_amount mp (splitCSVLine (trim line) delim) = Some (Fin 0)"
  shows "parse_row df mp delim st (i, line) = st\<lparr>csv_skipped := csv_skipped st + 1\<rparr>"
  using assms by (auto simp: parse_row_eq row_ready_def)

lemma parse_row_retained:
  assumes "row_ready df mp delim line" "row_amount mp (splitCSVLine (trim line) delim) = Some amt"
    and "amt \<noteq> Fin 0"
  shows "map p_amount (csv_transactions (parse_row df mp delim st (i, line)))
              = map p_amount (csv_transactions st) @ [Math_abs amt]
            \<and> csv_errors (parse_row df mp delim st (i, line)) = csv_errors st
            \<and> csv_skipped (parse_row df mp delim st (i, line)) = csv_skipped st"
  using assms by (auto simp: parse_row_eq row_ready_def)

text \<open>
  Claim C10. For every input text, every transaction in the output of \<open>parseCSV\<close> has
  a strictly positive amount. A row that gets as far as its amount and whose amount is
  exactly 0 is skipped: the skip count goes up by one and nothing else changes (no error
  message). A row whose amount is not 0 is emitted with the absolute value of its amount.
\<close>

theorem C10_positive_amounts:
  "(\<forall>t\<in>set (csv_transactions (parseCSV df dtm content)). is_positive (p_amount t))
   \<and> (row_ready df mp delim line \<and> row_amount mp (splitCSVLine (trim line) delim) = Some (Fin 0)
        \<longrightarrow> parse_row df mp delim st (i, line) = st\<lparr>csv_skipped := csv_skipped st + 1\<rparr>)
   \<and> (row_ready df mp delim line \<and> row_amount mp (splitCSVLine (trim line) delim) = Some amt
        \<and> amt \<noteq> Fin 0
        \<longrightarrow> map p_amount (csv_transactions (parse_row df mp delim st (i, line)))
              = map p_amount (csv_transactions st) @ [Math_abs amt]
            \<and> csv_errors (parse_row df mp delim st (i, line)) = csv_errors st
            \<and> csv_skipped (parse_row df mp delim st (i, line)) = csv_skipped st)"
  using parseCSV_positive [of df dtm content] parse_row_zero [of df mp delim line st i]
        parse_row_retained [of df mp delim line amt st i]
  by blast

theorem C10_positive_amounts_witness:
  "\<lparr>p_date = ''2024-01-15'', p_description = ''Netflix'', p_amount = Fin (1234 / 100),
     rawLine = ''01/15/2024,Netflix,($12.34)''\<rparr>
     \<in> set (csv_transactions (parseCSV (\<lambda>s. None) (\<lambda>s. 0)
         ''Date,Description,Amount\<newline>01/15/2024,Netflix,($12.34)\<newline>01/16/2024,Hulu,0.00''))
   \<and> is_positive (Fin (1234 / 100))
   \<and> csv_skipped (parseCSV (\<lambda>s. None) (\<lambda>s. 0)
         ''Date,Description,Amount\<newline>01/15/2024,Netflix,($12.34)\<newline>01/16/2024,Hulu,0.00'') = 1
   \<and> csv_errors (parseCSV (\<lambda>s. None) (\<lambda>s. 0)
         ''Date,Description,Amount\<newline>01/15/2024,Netflix,($12.34)\<newline>01/16/2024,Hulu,0.00'') = []
   \<and> row_ready (\<lambda>s. None)
         \<lparr>dateIndex = 0, descriptionIndex = 1, amountIndex = 2, debitIndex = None, creditIndex = None\<rparr>
         (CHR '','') ''01/16/2024,Hulu,0.00''
   \<and> parse_row (\<lambda>s. None)
         \<lparr>dateIndex = 0, descriptionIndex = 1, amountIndex = 2, debitIndex = None, creditIndex = None\<rparr>
         (CHR '','') \<lparr>csv_transactions = [], csv_errors = [], csv_skipped = 0\<rparr>
         (2, ''01/16/2024,Hulu,0.00'')
       = \<lparr>csv_transactions = [], csv_errors = [], csv_skipped = 1\<rparr>"
proof -
  let ?content = "''Date,Description,Amount\<newline>01/15/2024,Netflix,($12.34)\<newline>01/16/2024,Hulu,0.00''"
  let ?t = "\<lparr>p_date = ''2024-01-15'', p_description = ''Netflix'', p_amount = Fin (1234 / 100),
     rawLine = ''01/15/2024,Netflix,($12.34)''\<rparr>"
  let ?mp = "\<lparr>dateIndex = 0, descriptionIndex = 1, amountIndex = 2, debitIndex = None, creditIndex = None\<rparr>"
  let ?line = "''01/16/2024,Hulu,0.00''"
  let ?st = "\<lparr>csv_transactions = [], csv_errors = [], csv_skipped = 0\<rparr>"
  have ev: "parseCSV (\<lambda>s. None) (\<lambda>s. 0) ?content
              = \<lparr>csv_transactions = [?t], csv_errors = [], csv_skipped = 1\<rparr>"
    by (simp add: csv_defs Let_def)
  then have mem: "?t \<in> set (csv_transactions (parseCSV (\<lambda>s. None) (\<lambda>s. 0) ?content))"
    by simp
  have flds: "splitCSVLine (trim ?line) (CHR '','') = [''01/16/2024'', ''Hulu'', ''0.00'']"
    by (simp add: splitCSVLine_def trim_def is_space_def)
  have tr: "trim ?line \<noteq> []"
    by (simp add: trim_def is_space_def)
  have rd: "row_date (\<lambda>s. None) ?mp [''01/16/2024'', ''Hulu'', ''0.00''] \<noteq> None"
    by (simp add: row_date_def csv_defs Let_def)
  have ds: "row_description ?mp [''01/16/2024'', ''Hulu'', ''0.00''] \<noteq> []"
    by (simp add: row_description_def csv_defs)
  have ready: "row_ready (\<lambda>s. None) ?mp (CHR '','') ?line"
    unfolding row_ready_def flds using tr rd ds by blast
  have zero: "row_amount ?mp (splitCSVLine (trim ?line) (CHR '','')) = Some (Fin 0)"
    unfolding flds by (simp add: csv_defs Let_def)
  note c10 = C10_positive_amounts [of "\<lambda>s. None" "\<lambda>s. 0" ?content ?mp "CHR '',''" ?line ?st 2]
  have "\<forall>t\<in>set (csv_transactions (parseCSV (\<lambda>s. None) (\<lambda>s. 0) ?content)). is_positive (p_amount t)"
    using c10 by (rule conjunct1)
  from this mem have pos: "is_positive (p_amount ?t)" by (rule bspec)
  have "parse_row (\<lambda>s. None) ?mp (CHR '','') ?st (2, ?line) = ?st\<lparr>csv_skipped := csv_skipped ?st + 1\<rparr>"
    using c10 ready zero by blast
  then have skip: "parse_row (\<lambda>s. None) ?mp (CHR '','') ?st (2, ?line)
               = \<lparr>csv_transactions = [], csv_errors = [], csv_skipped = 1\<rparr>"
    by simp
  from mem pos ev ready skip show ?thesis by simp
qed

subsection \<open>The three amount strings\<close>





section \<open>Properties of the merchant resolver\<close>

subsection \<open>Alignments, edit paths and the recursive distance\<close>

lemma aligned_refl: "aligned 0 xs xs"
  by (induction xs) (auto intro: aligned.intros)

lemma aligned_sym: "aligned n xs ys \<Longrightarrow> aligned n ys xs"
  by (induction rule: aligned.induct) (auto intro: aligned.intros)

lemma aligned_only_ins: "aligned (length ys) [] ys"
  by (induction ys) (auto intro: aligned.intros)

lemma aligned_only_del: "aligned (length xs) xs []"
  by (induction xs) (auto intro: aligned.intros)

lemma aligned_lev: "aligned (lev xs ys) xs ys"
proof (induction xs ys rule: lev.induct)
  case (1 ys)
  show ?case using aligned_only_ins [of ys] by simp
next
  case (2 x xs)
  show ?case using aligned_only_del [of "x # xs"] by simp
next
  case (3 x xs y ys)
  show ?case
  proof (cases "x = y")
    case True
    with 3 show ?thesis by (auto intro: aligned.intros)
  next
    case False
    let ?a = "lev xs ys" and ?b = "lev (x # xs) ys" and ?c = "lev xs (y # ys)"
    have a: "aligned (Suc ?a) (x # xs) (y # ys)" using 3 False by (auto intro: aligned.intros)
    have b: "aligned (Suc ?b) (x # xs) (y # ys)" using 3 False by (auto intro: aligned.intros)
    have c: "aligned (Suc ?c) (x # xs) (y # ys)" using 3 False by (auto intro: aligned.intros)
    have "lev (x # xs) (y # ys) = Suc ?a \<or> lev (x # xs) (y # ys) = Suc ?b \<or> lev (x # xs) (y # ys) = Suc ?c"
      using False by (auto simp: min_def)
    with a b c show ?thesis by metis
  qed
qed

text \<open>Dropping the first character of the target costs at most one more.\<close>

lemma aligned_drop_target:
  "aligned n xs (y # ys) \<Longrightarrow> \<exists>m\<le>Suc n. aligned m xs ys"
proof (induction n xs "y # ys" rule: aligned.induct)
  case (a_keep n xs)
  then show ?case by (auto intro: aligned.intros)
next
  case (a_sub n xs x)
  then have "aligned (Suc n) (x # xs) ys" by (auto intro: aligned.intros)
  then show ?case by (intro exI [of _ "Suc n"]) simp
next
  case (a_del n xs x)
  then obtain m where "m \<le> Suc n" "aligned m xs ys" by auto
  then have "Suc m \<le> Suc (Suc n)" "aligned (Suc m) (x # xs) ys" by (auto intro: aligned.intros)
  then show ?case by blast
next
  case (a_ins n xs)
  then show ?case by (auto intro: le_SucI)
qed

lemma aligned_drop_source:
  assumes "aligned n (x # xs) ys"
  shows "\<exists>m\<le>Suc n. aligned m xs ys"
proof -
  have "aligned n ys (x # xs)" using assms by (rule aligned_sym)
  from aligned_drop_target [OF this] show ?thesis by (auto dest: aligned_sym)
qed

lemma lev_least: "aligned n xs ys \<Longrightarrow> lev xs ys \<le> n"
proof (induction xs ys arbitrary: n rule: lev.induct)
  case (1 ys)
  from 1 show ?case
  proof (induction n "[]::'a list" ys rule: aligned.induct)
    case a_nil show ?case by simp
  next
    case (a_ins n ys y) then show ?case by simp
  qed
next
  case (2 x xs)
  from 2 have "aligned n [] (x # xs)" by (rule aligned_sym)
  then have "length (x # xs) \<le> n"
  proof (induction n "[]::'a list" "x # xs" arbitrary: x xs rule: aligned.induct)
    case (a_ins n xs x)
    then show ?case by (cases xs) (auto elim: aligned.cases)
  qed
  then show ?case by simp
next
  case (3 x xs y ys)
  from "3.prems" show ?case
  proof (cases rule: aligned.cases)
    case a_keep
    with 3 show ?thesis by auto
  next
    case (a_sub n')
    then have al: "aligned n' xs ys" "n = Suc n'" by auto
    show ?thesis
    proof (cases "x = y")
      case True
      with 3(1) al show ?thesis by fastforce
    next
      case False
      with 3(2) al have "lev xs ys \<le> n'" by auto
      with False al show ?thesis by auto
    qed
  next
    case (a_del n')
    then have al: "aligned n' xs (y # ys)" "n = Suc n'" by auto
    show ?thesis
    proof (cases "x = y")
      case True
      from aligned_drop_target [OF al(1)] obtain m where "m \<le> Suc n'" "aligned m xs ys" by auto
      with 3(1) True al show ?thesis by fastforce
    next
      case False
      with 3(4) al have "lev xs (y # ys) \<le> n'" by auto
      with False al show ?thesis by auto
    qed
  next
    case (a_ins n')
    then have al: "aligned n' (x # xs) ys" "n = Suc n'" by auto
    show ?thesis
    proof (cases "x = y")
      case True
      from aligned_drop_source [OF al(1)] obtain m where "m \<le> Suc n'" "aligned m xs ys" by auto
      with 3(1) True al show ?thesis by fastforce
    next
      case False
      with 3(3) al have "lev (x # xs) ys \<le> n'" by auto
      with False al show ?thesis by auto
    qed
  qed
qed

lemma aligned_subst_target:
  "aligned n xs (y # ys) \<Longrightarrow> \<exists>m\<le>Suc n. aligned m xs (z # ys)"
proof (induction n xs "y # ys" rule: aligned.induct)
  case (a_keep n xs)
  then have "aligned (Suc n) (y # xs) (z # ys)" by (auto intro: aligned.intros)
  then show ?case by blast
next
  case (a_sub n xs x)
  then have "aligned (Suc n) (x # xs) (z # ys)" by (auto intro: aligned.intros)
  then show ?case by (intro exI [of _ "Suc n"]) simp
next
  case (a_del n xs x)
  then obtain m where "m \<le> Suc n" "aligned m xs (z # ys)" by auto
  then have "Suc m \<le> Suc (Suc n)" "aligned (Suc m) (x # xs) (z # ys)" by (auto intro: aligned.intros)
  then show ?case by blast
next
  case (a_ins n xs)
  then have "aligned (Suc n) xs (z # ys)" by (auto intro: aligned.intros)
  then show ?case by (intro exI [of _ "Suc n"]) simp
qed

lemma aligned_ctx_target:
  assumes step: "\<And>xs m. aligned m xs zs \<Longrightarrow> \<exists>m'\<le>Suc m. aligned m' xs ys"
  shows "aligned n xs (y # zs) \<Longrightarrow> \<exists>m'\<le>Suc n. aligned m' xs (y # ys)"
proof (induction n xs "y # zs" rule: aligned.induct)
  case (a_keep n xs)
  from step [OF a_keep(1)] obtain m' where "m' \<le> Suc n" "aligned m' xs ys" by auto
  then have "aligned m' (y # xs) (y # ys)" by (auto intro: aligned.intros)
  with \<open>m' \<le> Suc n\<close> show ?case by blast
next
  case (a_sub n xs x)
  from step [OF a_sub(1)] obtain m' where "m' \<le> Suc n" "aligned m' xs ys" by auto
  then have "Suc m' \<le> Suc (Suc n)" "aligned (Suc m') (x # xs) (y # ys)" by (auto intro: aligned.intros)
  then show ?case by blast
next
  case (a_del n xs x)
  then obtain m' where "m' \<le> Suc n" "aligned m' xs (y # ys)" by auto
  then have "Suc m' \<le> Suc (Suc n)" "aligned (Suc m') (x # xs) (y # ys)" by (auto intro: aligned.intros)
  then show ?case by blast
next
  case (a_ins n xs)
  from step [OF a_ins(1)] obtain m' where "m' \<le> Suc n" "aligned m' xs ys" by auto
  then have "Suc m' \<le> Suc (Suc n)" "aligned (Suc m') xs (y # ys)" by (auto intro: aligned.intros)
  then show ?case by blast
qed

lemma aligned_edit1:
  "edit1 zs ys \<Longrightarrow> aligned n xs zs \<Longrightarrow> \<exists>m\<le>Suc n. aligned m xs ys"
proof (induction zs ys arbitrary: n xs rule: edit1.induct)
  case (ins ys c)
  then have "aligned (Suc n) xs (c # ys)" by (auto intro: aligned.intros)
  then show ?case by blast
next
  case (del y ys)
  then show ?case by (rule aligned_drop_target)
next
  case (sub y ys z)
  then show ?case by (rule aligned_subst_target)
next
  case (ctx ys zs y)
  show ?case
    by (rule aligned_ctx_target [OF _ ctx.prems]) (rule ctx.IH)
qed

lemma path_aligned: "(edit1 ^^ n) xs ys \<Longrightarrow> \<exists>m\<le>n. aligned m xs ys"
proof (induction n arbitrary: ys)
  case 0
  then show ?case using aligned_refl [of xs] by auto
next
  case (Suc n)
  then obtain zs where zs: "(edit1 ^^ n) xs zs" "edit1 zs ys" by auto
  from Suc.IH [OF zs(1)] obtain m where m: "m \<le> n" "aligned m xs zs" by auto
  from aligned_edit1 [OF zs(2) m(2)] obtain m' where "m' \<le> Suc m" "aligned m' xs ys" by auto
  with m(1) show ?case by (intro exI [of _ m']) simp
qed

lemma path_ctx: "(edit1 ^^ n) xs ys \<Longrightarrow> (edit1 ^^ n) (x # xs) (x # ys)"
proof (induction n arbitrary: ys)
  case 0
  then show ?case by simp
next
  case (Suc n)
  then obtain zs where zs: "(edit1 ^^ n) xs zs" "edit1 zs ys" by auto
  from Suc.IH [OF zs(1)] have "(edit1 ^^ n) (x # xs) (x # zs)" .
  moreover have "edit1 (x # zs) (x # ys)" using zs(2) by (rule edit1.ctx)
  ultimately show ?case by auto
qed

lemma aligned_path: "aligned n xs ys \<Longrightarrow> (edit1 ^^ n) xs ys"
proof (induction rule: aligned.induct)
  case a_nil
  show ?case by simp
next
  case (a_keep n xs ys x)
  then show ?case by (simp add: path_ctx)
next
  case (a_sub n xs ys x y)
  have "edit1 (x # xs) (y # xs)" by (rule edit1.sub)
  moreover have "(edit1 ^^ n) (y # xs) (y # ys)" using a_sub.IH by (rule path_ctx)
  ultimately show ?case by (rule relpowp_Suc_I2)
next
  case (a_del n xs ys x)
  have "edit1 (x # xs) xs" by (rule edit1.del)
  then show ?case using a_del.IH by (rule relpowp_Suc_I2)
next
  case (a_ins n xs ys y)
  have "edit1 ys (y # ys)" by (rule edit1.ins)
  with a_ins.IH show ?case by (rule relpowp_Suc_I)
qed

lemma lev_levenshtein: "lev xs ys = levenshtein xs ys"
proof -
  have "(edit1 ^^ lev xs ys) xs ys"
    using aligned_lev by (rule aligned_path)
  moreover have "lev xs ys \<le> n" if "(edit1 ^^ n) xs ys" for n
  proof -
    from path_aligned [OF that] obtain m where "m \<le> n" "aligned m xs ys" by auto
    with lev_least [of m xs ys] show ?thesis by simp
  qed
  ultimately show ?thesis
    unfolding levenshtein_def by (intro Least_equality [symmetric])
qed

lemma aligned_snoc_keep: "aligned n xs ys \<Longrightarrow> aligned n (xs @ [x]) (ys @ [x])"
proof (induction rule: aligned.induct)
  case a_nil
  show ?case using aligned.a_keep [OF aligned.a_nil, of x] by simp
qed (simp_all add: aligned.intros)

lemma aligned_snoc_sub: "aligned n xs ys \<Longrightarrow> aligned (Suc n) (xs @ [x]) (ys @ [y])"
proof (induction rule: aligned.induct)
  case a_nil
  show ?case using aligned.a_sub [OF aligned.a_nil, of x y] by simp
qed (simp_all add: aligned.intros)

lemma aligned_snoc_del: "aligned n xs ys \<Longrightarrow> aligned (Suc n) (xs @ [x]) ys"
proof (induction rule: aligned.induct)
  case a_nil
  show ?case using aligned.a_del [OF aligned.a_nil, of x] by simp
qed (simp_all add: aligned.intros)

lemma aligned_snoc_ins: "aligned n xs ys \<Longrightarrow> aligned (Suc n) xs (ys @ [y])"
proof (induction rule: aligned.induct)
  case a_nil
  show ?case using aligned.a_ins [OF aligned.a_nil, of y] by simp
qed (simp_all add: aligned.intros)

lemma aligned_rev: "aligned n xs ys \<Longrightarrow> aligned n (rev xs) (rev ys)"
proof (induction rule: aligned.induct)
  case a_nil
  show ?case by (simp add: aligned.a_nil)
qed (simp_all add: aligned_snoc_keep aligned_snoc_sub aligned_snoc_del aligned_snoc_ins)

lemma lev_rev_swap: "lev (rev ys) (rev xs) = lev xs ys"
proof (rule antisym)
  have "aligned (lev xs ys) (rev ys) (rev xs)"
    by (rule aligned_rev [OF aligned_sym [OF aligned_lev]])
  then show "lev (rev ys) (rev xs) \<le> lev xs ys" by (rule lev_least)
next
  have "aligned (lev (rev ys) (rev xs)) (rev (rev xs)) (rev (rev ys))"
    by (rule aligned_rev [OF aligned_sym [OF aligned_lev]])
  then have "aligned (lev (rev ys) (rev xs)) xs ys" by simp
  then show "lev xs ys \<le> lev (rev ys) (rev xs)" by (rule lev_least)
qed

subsection \<open>The matrix of levenshteinDistance\<close>

lemma foldl_upt_inv:
  assumes "P lo s"
    and "\<And>i s. lo \<le> i \<Longrightarrow> i < hi \<Longrightarrow> P i s \<Longrightarrow> P (Suc i) (f s i)"
    and "lo \<le> hi"
  shows "P hi (foldl f s [lo..<hi])"
  using assms(3,2)
proof (induction hi rule: dec_induct)
  case base
  show ?case using assms(1) by simp
next
  case (step n)
  have "P n (foldl f s [lo..<n])"
    using step.IH step.prems step.hyps by simp
  then have "P (Suc n) (f (foldl f s [lo..<n]) n)"
    using step.prems step.hyps by simp
  then show ?case using step.hyps by simp
qed

lemma lev_init_rows:
  "foldl (\<lambda>m i. array_set m i [i]) [] [0..<n] = map (\<lambda>i. [i]) [0..<n]"
  by (induction n) (simp_all add: array_set_def)

lemma lev_init_eq:
  "lev_init la lb = (map (\<lambda>i. [i]) [0..<Suc lb])[0 := [0..<Suc la]]"
proof -
  let ?m1 = "map (\<lambda>i. [i]) [0..<Suc lb]"
  let ?P = "\<lambda>k m. m = ?m1[0 := (if k = 0 then [0] else [0..<k])]"
  have "?P (Suc la) (foldl (\<lambda>m j. m[0 := array_set (m ! 0) j j]) ?m1 [0..<Suc la])"
  proof (rule foldl_upt_inv [where P = ?P])
    have "?m1 ! 0 = [0]" by (simp only: nth_map_upt) simp
    then have "?m1[0 := [0]] = ?m1" by (metis list_update_id)
    then show "?P 0 ?m1" by simp
  next
    fix i m assume "?P i m"
    then have m: "m = ?m1[0 := (if i = 0 then [0] else [0..<i])]" .
    have len: "0 < length ?m1" by simp
    have row0: "m ! 0 = (if i = 0 then [0] else [0..<i])"
      unfolding m using len by (simp only: nth_list_update_eq)
    have "array_set (m ! 0) i i = [0..<Suc i]"
      unfolding row0 by (cases "i = 0") (simp_all add: array_set_def)
    then have "m[0 := array_set (m ! 0) i i] = ?m1[0 := [0..<Suc i]]"
      unfolding m by (simp only: list_update_overwrite)
    then show "?P (Suc i) (m[0 := array_set (m ! 0) i i])" by simp
  qed simp
  then show ?thesis
    unfolding lev_init_def Let_def lev_init_rows by simp
qed


lemma lev_Nil2: "lev xs [] = length xs"
  by (cases xs) simp_all

lemma prefix_dist_row0: "j \<le> length a \<Longrightarrow> prefix_dist a b 0 j = j"
  by (simp add: prefix_dist_def)

lemma prefix_dist_col0: "i \<le> length b \<Longrightarrow> prefix_dist a b i 0 = i"
  by (simp add: prefix_dist_def lev_Nil2)

lemma prefix_dist_Suc:
  assumes "i < length b" "j < length a"
  shows "prefix_dist a b (Suc i) (Suc j) =
           (if b ! i = a ! j then prefix_dist a b i j
            else min (prefix_dist a b i j + 1)
                   (min (prefix_dist a b (Suc i) j + 1) (prefix_dist a b i (Suc j) + 1)))"
  using assms by (simp add: prefix_dist_def take_Suc_conv_app_nth)

lemma row_partial_step:
  assumes inv: "row_partial a b i j m"
    and i: "1 \<le> i" "i \<le> length b" and j: "1 \<le> j" "j \<le> length a"
  shows "row_partial a b i (Suc j) (m[i := array_set (m ! i) j (lev_cell a b m i j)])"
proof -
  obtain i0 j0 where ij: "i = Suc i0" "j = Suc j0"
    using i(1) j(1) by (metis One_nat_def Suc_le_D)
  have len: "length m = Suc (length b)" using inv by (simp add: row_partial_def)
  have above: "m ! i0 = map (prefix_dist a b i0) [0..<Suc (length a)]"
    using inv ij by (simp add: row_partial_def)
  have row: "m ! i = map (prefix_dist a b i) [0..<j]"
    using inv by (simp add: row_partial_def)
  have c1: "m ! i0 ! j0 = prefix_dist a b i0 j0"
    unfolding above using j ij by (simp only: nth_map_upt) simp
  have c2: "m ! i ! j0 = prefix_dist a b i j0"
    unfolding row using ij by (simp only: nth_map_upt) simp
  have c3: "m ! i0 ! j = prefix_dist a b i0 j"
    unfolding above using j by (simp only: nth_map_upt) simp
  have "lev_cell a b m i j = prefix_dist a b i j"
    using i j ij c1 c2 c3 prefix_dist_Suc [of i0 b j0 a]
    by (simp add: lev_cell_def)
  moreover have "length (m ! i) = j" unfolding row by simp
  ultimately have new: "array_set (m ! i) j (lev_cell a b m i j) = map (prefix_dist a b i) [0..<Suc j]"
    unfolding array_set_def using row by simp
  have ilen: "i < length m" using len i by simp
  show ?thesis
    unfolding row_partial_def
  proof (intro conjI allI impI)
    show "length (m[i := array_set (m ! i) j (lev_cell a b m i j)]) = Suc (length b)"
      using len by simp
    show "m[i := array_set (m ! i) j (lev_cell a b m i j)] ! i = map (prefix_dist a b i) [0..<Suc j]"
      using ilen new by simp
  next
    fix i' assume "i' < i"
    then show "m[i := array_set (m ! i) j (lev_cell a b m i j)] ! i'
                 = map (prefix_dist a b i') [0..<Suc (length a)]"
      using inv by (simp add: row_partial_def)
  next
    fix i' assume "i < i' \<and> i' \<le> length b"
    then show "m[i := array_set (m ! i) j (lev_cell a b m i j)] ! i' = [i']"
      using inv by (simp add: row_partial_def)
  qed
qed

lemma lev_row_inv:
  assumes "rows_done a b i m" "1 \<le> i" "i \<le> length b"
  shows "rows_done a b (Suc i) (lev_row a b m i)"
proof -
  have start: "row_partial a b i 1 m"
    using assms by (auto simp: rows_done_def row_partial_def prefix_dist_col0)
  have "row_partial a b i (Suc (length a)) (lev_row a b m i)"
    unfolding lev_row_def
  proof (rule foldl_upt_inv [where P = "row_partial a b i"])
    show "row_partial a b i 1 m" by (rule start)
  next
    fix j s assume "1 \<le> j" "j < Suc (length a)" "row_partial a b i j s"
    then show "row_partial a b i (Suc j) (s[i := array_set (s ! i) j (lev_cell a b s i j)])"
      using assms(2,3) by (intro row_partial_step) simp_all
  qed simp
  then show ?thesis
    by (auto simp: rows_done_def row_partial_def less_Suc_eq)
qed

lemma lev_init_inv: "rows_done a b 1 (lev_init (length a) (length b))"
proof -
  have "map (prefix_dist a b 0) [0..<Suc (length a)] = [0..<Suc (length a)]"
    by (rule map_idI [where f = "prefix_dist a b 0", simplified id_def] | rule nth_equalityI)
       (auto simp: prefix_dist_row0 simp del: upt_Suc)
  moreover have "(map (\<lambda>i. [i]) [0..<Suc (length b)])[0 := [0..<Suc (length a)]] ! i' = [i']"
    if "1 \<le> i'" "i' \<le> length b" for i'
    using that by (simp del: upt_Suc)
  ultimately show ?thesis
    unfolding rows_done_def lev_init_eq by (auto simp del: upt_Suc)
qed

lemma levenshteinDistance_lev: "levenshteinDistance a b = lev (rev b) (rev a)"
proof -
  let ?m = "foldl (lev_row a b) (lev_init (length a) (length b)) [1..<Suc (length b)]"
  have "rows_done a b (Suc (length b)) ?m"
  proof (rule foldl_upt_inv [where P = "rows_done a b"])
    show "rows_done a b 1 (lev_init (length a) (length b))" by (rule lev_init_inv)
  next
    fix i s assume "1 \<le> i" "i < Suc (length b)" "rows_done a b i s"
    then show "rows_done a b (Suc i) (lev_row a b s i)"
      by (intro lev_row_inv) simp_all
  qed simp
  then have "?m ! length b = map (prefix_dist a b (length b)) [0..<Suc (length a)]"
    by (simp add: rows_done_def)
  then have "?m ! length b ! length a = prefix_dist a b (length b) (length a)"
    by (simp only: nth_map_upt) simp
  then show ?thesis
    by (simp add: levenshteinDistance_def Let_def prefix_dist_def)
qed

lemma levenshteinDistance_correct: "levenshteinDistance a b = levenshtein a b"
  using levenshteinDistance_lev [of a b] lev_rev_swap [of b a] lev_levenshtein [of a b]
  by simp

lemma lev_same: "lev xs xs = 0"
  by (induction xs) simp_all

text \<open>
  Claim C6. For all strings, \<open>calculateSimilarity\<close> is 1 when the two reduced strings
  (lowercased, letters and digits only) are equal, 0 when exactly one of them is empty,
  and otherwise 1 minus the Levenshtein distance of the reduced strings divided by the
  larger of their lengths. Unless both reduced strings are empty, all three cases agree
  with that quotient formula.
\<close>

theorem C6_similarity:
  "calculateSimilarity a b =
     (if alnum_lower a = alnum_lower b then 1
      else if alnum_lower a = [] \<or> alnum_lower b = [] then 0
      else 1 - real (levenshtein (alnum_lower a) (alnum_lower b))
               / real (max (length (alnum_lower a)) (length (alnum_lower b))))
   \<and> (alnum_lower a \<noteq> [] \<or> alnum_lower b \<noteq> [] \<longrightarrow>
        calculateSimilarity a b =
          1 - real (levenshtein (alnum_lower a) (alnum_lower b))
              / real (max (length (alnum_lower a)) (length (alnum_lower b))))"
proof -
  let ?na = "alnum_lower a" and ?nb = "alnum_lower b"
  have main: "calculateSimilarity a b =
     (if ?na = ?nb then 1
      else if ?na = [] \<or> ?nb = [] then 0
      else 1 - real (levenshtein ?na ?nb) / real (max (length ?na) (length ?nb)))"
    by (simp add: calculateSimilarity_def Let_def levenshteinDistance_correct)
  have same: "levenshtein ?na ?nb = 0" if "?na = ?nb"
    using that lev_same [of ?nb] by (simp add: lev_levenshtein [symmetric])
  have left: "levenshtein ?na ?nb = length ?nb" if "?na = []"
    using that by (simp add: lev_levenshtein [symmetric])
  have right: "levenshtein ?na ?nb = length ?na" if "?nb = []"
    using that by (simp add: lev_levenshtein [symmetric] lev_Nil2)
  have "calculateSimilarity a b = 1 - real (levenshtein ?na ?nb) / real (max (length ?na) (length ?nb))"
    if ne: "?na \<noteq> [] \<or> ?nb \<noteq> []"
  proof (cases "?na = ?nb")
    case True
    with main same show ?thesis by simp
  next
    case False
    show ?thesis
    proof (cases "?na = [] \<or> ?nb = []")
      case True
      then show ?thesis
      proof
        assume e: "?na = []"
        then have "?nb \<noteq> []" using False by auto
        with main False e left [OF e] show ?thesis by simp
      next
        assume e: "?nb = []"
        then have "?na \<noteq> []" using False by auto
        with main False e right [OF e] show ?thesis by simp
      qed
    next
      case False
      with main \<open>?na \<noteq> ?nb\<close> show ?thesis by simp
    qed
  qed
  with main show ?thesis by blast
qed

theorem C6_similarity_witness:
  "alnum_lower ''Netflix Inc'' = ''netflixinc'' \<and> alnum_lower ''NETFLIX'' = ''netflix''
   \<and> levenshtein ''netflixinc'' ''netflix'' = 3
   \<and> calculateSimilarity ''Netflix Inc'' ''NETFLIX'' = 7 / 10"
proof -
  have na: "alnum_lower ''Netflix Inc'' = ''netflixinc''"
    by (simp add: alnum_lower_def toLowerCase_def toLowerCase_char_def upper_case_letters_def lower_case_letters_def)
  have nb: "alnum_lower ''NETFLIX'' = ''netflix''"
    by (simp add: alnum_lower_def toLowerCase_def toLowerCase_char_def upper_case_letters_def lower_case_letters_def)
  have d: "levenshtein ''netflixinc'' ''netflix'' = 3"
    by (simp add: lev_levenshtein [symmetric])
  have "alnum_lower ''Netflix Inc'' \<noteq> [] \<or> alnum_lower ''NETFLIX'' \<noteq> []"
    unfolding na by simp
  with C6_similarity [of "''Netflix Inc''" "''NETFLIX''"]
  have "calculateSimilarity ''Netflix Inc'' ''NETFLIX'' =
          1 - real (levenshtein (alnum_lower ''Netflix Inc'') (alnum_lower ''NETFLIX''))
              / real (max (length (alnum_lower ''Netflix Inc'')) (length (alnum_lower ''NETFLIX'')))"
    by blast
  then have "calculateSimilarity ''Netflix Inc'' ''NETFLIX'' = 7 / 10"
    unfolding na nb d by simp
  with na nb d show ?thesis by blast
qed

subsection \<open>Resolving a raw name twice\<close>

lemma alnum_self: "calculateSimilarity n n = 1"
  by (simp add: calculateSimilarity_def)

lemma find_similar_same:
  assumes "m \<in> set ms" "m_name m = n"
  shows "find_similar n ms \<noteq> None"
  using assms by (induction ms) (auto simp: alnum_self)

lemma insert_merchant_ok:
  assumes "single (filter (\<lambda>m. m_user_id m = u \<and> m_name m = n) (merchants s)) = None"
    and "find_similar n (filter (\<lambda>m. m_user_id m = u) (merchants s)) = None"
  shows "insert_merchant s u n rs =
           Some (next_id s, s\<lparr>merchants := merchants s @
                          [\<lparr>m_id = next_id s, m_user_id = u, m_name = n, m_raw_names = rs\<rparr>],
                        next_id := next_id s + 1\<rparr>)"
proof -
  have "\<not> list_ex (\<lambda>m. m_user_id m = u \<and> m_name m = n) (merchants s)"
  proof
    assume "list_ex (\<lambda>m. m_user_id m = u \<and> m_name m = n) (merchants s)"
    then obtain m where m: "m \<in> set (merchants s)" "m_user_id m = u" "m_name m = n"
      by (auto simp: list_ex_iff)
    then have "m \<in> set (filter (\<lambda>m. m_user_id m = u) (merchants s))" by simp
    from find_similar_same [OF this m(3)] assms(2) show False by simp
  qed
  then show ?thesis by (simp add: insert_merchant_def)
qed

lemma filter_distinct_key:
  assumes "distinct (map f xs)"
  shows "length (filter (\<lambda>x. f x = k) xs) \<le> 1"
  using assms
proof (induction xs)
  case Nil
  show ?case by simp
next
  case (Cons x xs)
  show ?case
  proof (cases "f x = k")
    case True
    then have "filter (\<lambda>x. f x = k) xs = []"
      using Cons.prems by (auto simp: filter_empty_conv image_iff)
    with True show ?thesis by simp
  next
    case False
    with Cons show ?thesis by simp
  qed
qed

lemma alias_matches_fun:
  "alias_matches u r = (\<lambda>a. (a_user_id a, a_raw_name a) = (u, r))"
  by (rule ext) (simp add: alias_matches_def)

lemma alias_rows_le: "alias_unique s \<Longrightarrow> alias_rows s u r \<le> 1"
proof -
  assume "alias_unique s"
  then have "length (filter (\<lambda>a. (a_user_id a, a_raw_name a) = (u, r)) (merchant_aliases s)) \<le> 1"
    unfolding alias_unique_def by (rule filter_distinct_key)
  then show ?thesis by (simp only: alias_rows_def alias_matches_fun)
qed

lemma upsert_alias_new:
  assumes "alias_rows s u r = 0"
  shows "merchant_aliases (upsert_alias s mid r u)
           = merchant_aliases s @ [\<lparr>a_merchant_id = mid, a_raw_name = r, a_user_id = u\<rparr>]"
    and "merchants (upsert_alias s mid r u) = merchants s"
    and "next_id (upsert_alias s mid r u) = next_id s"
proof -
  have "\<not> list_ex (alias_matches u r) (merchant_aliases s)"
    using assms by (auto simp: alias_rows_def list_ex_iff filter_empty_conv)
  then show "merchant_aliases (upsert_alias s mid r u)
           = merchant_aliases s @ [\<lparr>a_merchant_id = mid, a_raw_name = r, a_user_id = u\<rparr>]"
    "merchants (upsert_alias s mid r u) = merchants s"
    "next_id (upsert_alias s mid r u) = next_id s"
    by (simp_all add: upsert_alias_def)
qed


lemma upsert_alias_rows:
  assumes "alias_rows s u r = 0"
  shows "alias_rows (upsert_alias s mid r u) u r = 1"
  using assms upsert_alias_new(1) [OF assms, of mid]
  by (simp add: alias_rows_def alias_matches_def)

lemma upsert_alias_single:
  assumes "alias_rows s u r = 0"
  shows "single (filter (alias_matches u r) (merchant_aliases (upsert_alias s mid r u)))
           = Some \<lparr>a_merchant_id = mid, a_raw_name = r, a_user_id = u\<rparr>"
proof -
  have "filter (alias_matches u r) (merchant_aliases s) = []"
    using assms by (simp add: alias_rows_def)
  then show ?thesis
    unfolding upsert_alias_new(1) [OF assms] by (simp add: single_def alias_matches_def)
qed

lemma upsert_alias_unique:
  assumes "alias_rows s u r = 0" "alias_unique s"
  shows "alias_unique (upsert_alias s mid r u)"
proof -
  have "(u, r) \<notin> set (map (\<lambda>a. (a_user_id a, a_raw_name a)) (merchant_aliases s))"
    using assms(1) by (auto simp: alias_rows_def filter_empty_conv alias_matches_def)
  then show ?thesis
    using assms(2) unfolding alias_unique_def upsert_alias_new(1) [OF assms(1)] by simp
qed

text \<open>The shape of a call whose raw name has no alias row yet.\<close>

lemma findOrCreate_new:
  assumes "alias_rows s u r = 0"
  shows "\<exists>mid s1. findOrCreateMerchant nz app s u r = (Inr mid, upsert_alias s1 mid r u)
           \<and> merchant_aliases s1 = merchant_aliases s
           \<and> length (merchants s1) \<le> length (merchants s) + 1"
proof -
  have noalias: "single (filter (alias_matches u r) (merchant_aliases s)) = None"
    using assms by (simp add: alias_rows_def single_def)
  show ?thesis
  proof (cases "single (filter (\<lambda>m. m_user_id m = u \<and> m_name m = nz r) (merchants s))")
    case (Some em)
    let ?s1 = "s\<lparr>merchants := map (\<lambda>m. if m_id m = m_id em
                                          then m\<lparr>m_raw_names := app (m_raw_names m) r\<rparr> else m)
                                   (merchants s)\<rparr>"
    have "findOrCreateMerchant nz app s u r = (Inr (m_id em), upsert_alias ?s1 (m_id em) r u)"
      using noalias Some by (simp add: findOrCreateMerchant_def Let_def)
    moreover have "merchant_aliases ?s1 = merchant_aliases s" by simp
    moreover have "length (merchants ?s1) \<le> length (merchants s) + 1" by simp
    ultimately show ?thesis by blast
  next
    case None
    show ?thesis
    proof (cases "find_similar (nz r) (filter (\<lambda>m. m_user_id m = u) (merchants s))")
      case (Some mid)
      have "findOrCreateMerchant nz app s u r = (Inr mid, upsert_alias s mid r u)"
        using noalias None Some by (simp add: findOrCreateMerchant_def Let_def)
      moreover have "length (merchants s) \<le> length (merchants s) + 1" by simp
      ultimately show ?thesis by blast
    next
      case none: None
      let ?s1 = "s\<lparr>merchants := merchants s @
                          [\<lparr>m_id = next_id s, m_user_id = u, m_name = nz r, m_raw_names = [r]\<rparr>],
                        next_id := next_id s + 1\<rparr>"
      have "findOrCreateMerchant nz app s u r = (Inr (next_id s), upsert_alias ?s1 (next_id s) r u)"
        using noalias None none insert_merchant_ok [OF None none, of "[r]"]
        by (simp add: findOrCreateMerchant_def Let_def)
      moreover have "merchant_aliases ?s1 = merchant_aliases s" by simp
      moreover have "length (merchants ?s1) \<le> length (merchants s) + 1" by simp
      ultimately show ?thesis by blast
    qed
  qed
qed

lemma findOrCreate_seen:
  assumes "single (filter (alias_matches u r) (merchant_aliases s)) = Some a"
  shows "findOrCreateMerchant nz app s u r = (Inr (a_merchant_id a), s)"
  using assms by (simp add: findOrCreateMerchant_def Let_def)

lemma single_one: "length xs = 1 \<Longrightarrow> \<exists>x. single xs = Some x"
  by (cases xs) (auto simp: single_def)

text \<open>
  Claim C5. In a store whose alias table is unique on (user, raw name), resolving a raw
  name returns a merchant id, and resolving the same raw name again for the same user
  returns the same id through the stored alias, without changing the store; afterwards
  exactly one alias row exists for the user and the raw name. For a raw name without an
  alias row, the first call creates at most one merchant and exactly one alias.
\<close>

theorem C5_resolution_idempotent:
  assumes "alias_unique s"
  shows "\<exists>mid s1. findOrCreateMerchant nz app s u r = (Inr mid, s1)
           \<and> findOrCreateMerchant nz app s1 u r = (Inr mid, s1)
           \<and> alias_rows s1 u r = 1
           \<and> alias_unique s1
           \<and> (alias_rows s u r = 0 \<longrightarrow>
                 length (merchants s1) \<le> length (merchants s) + 1
                 \<and> length (merchant_aliases s1) = length (merchant_aliases s) + 1)"
proof (cases "alias_rows s u r = 0")
  case True
  from findOrCreate_new [OF True, of nz app] obtain mid s0 where
    r1: "findOrCreateMerchant nz app s u r = (Inr mid, upsert_alias s0 mid r u)"
    and s0: "merchant_aliases s0 = merchant_aliases s" "length (merchants s0) \<le> length (merchants s) + 1"
    by blast
  have z0: "alias_rows s0 u r = 0" using True s0(1) by (simp add: alias_rows_def)
  have u0: "alias_unique s0" using assms s0(1) by (simp add: alias_unique_def)
  let ?s1 = "upsert_alias s0 mid r u"
  have "findOrCreateMerchant nz app ?s1 u r = (Inr mid, ?s1)"
    using findOrCreate_seen [OF upsert_alias_single [OF z0, of mid], of nz app] by simp
  moreover have "alias_rows ?s1 u r = 1" by (rule upsert_alias_rows [OF z0])
  moreover have "alias_unique ?s1" by (rule upsert_alias_unique [OF z0 u0])
  moreover have "length (merchants ?s1) \<le> length (merchants s) + 1"
    using s0(2) upsert_alias_new(2) [OF z0, of mid] by simp
  moreover have "length (merchant_aliases ?s1) = length (merchant_aliases s) + 1"
    using s0(1) upsert_alias_new(1) [OF z0, of mid] by simp
  ultimately show ?thesis using r1 by blast
next
  case False
  with alias_rows_le [OF assms, of u r] have one: "alias_rows s u r = 1" by linarith
  then obtain a where a: "single (filter (alias_matches u r) (merchant_aliases s)) = Some a"
    using single_one by (auto simp: alias_rows_def)
  from findOrCreate_seen [OF a, of nz app] one assms False show ?thesis by auto
qed

theorem C5_resolution_idempotent_witness:
  "alias_unique \<lparr>merchants = [], merchant_aliases = [], next_id = 0\<rparr>
   \<and> findOrCreateMerchant (\<lambda>n. n) (\<lambda>ns n. ns @ [n])
         \<lparr>merchants = [], merchant_aliases = [], next_id = 0\<rparr> ''u1'' ''NETFLIX.COM''
       = (Inr 0,
          \<lparr>merchants = [\<lparr>m_id = 0, m_user_id = ''u1'', m_name = ''NETFLIX.COM'',
                          m_raw_names = [''NETFLIX.COM'']\<rparr>],
           merchant_aliases = [\<lparr>a_merchant_id = 0, a_raw_name = ''NETFLIX.COM'', a_user_id = ''u1''\<rparr>],
           next_id = 1\<rparr>)
   \<and> findOrCreateMerchant (\<lambda>n. n) (\<lambda>ns n. ns @ [n])
         \<lparr>merchants = [\<lparr>m_id = 0, m_user_id = ''u1'', m_name = ''NETFLIX.COM'',
                          m_raw_names = [''NETFLIX.COM'']\<rparr>],
           merchant_aliases = [\<lparr>a_merchant_id = 0, a_raw_name = ''NETFLIX.COM'', a_user_id = ''u1''\<rparr>],
           next_id = 1\<rparr> ''u1'' ''NETFLIX.COM''
       = (Inr 0,
          \<lparr>merchants = [\<lparr>m_id = 0, m_user_id = ''u1'', m_name = ''NETFLIX.COM'',
                          m_raw_names = [''NETFLIX.COM'']\<rparr>],
           merchant_aliases = [\<lparr>a_merchant_id = 0, a_raw_name = ''NETFLIX.COM'', a_user_id = ''u1''\<rparr>],
           next_id = 1\<rparr>)"
proof -
  let ?s = "\<lparr>merchants = [], merchant_aliases = [], next_id = 0\<rparr>"
  have u: "alias_unique ?s" by (simp add: alias_unique_def)
  have first: "findOrCreateMerchant (\<lambda>n. n) (\<lambda>ns n. ns @ [n]) ?s ''u1'' ''NETFLIX.COM''
       = (Inr 0,
          \<lparr>merchants = [\<lparr>m_id = 0, m_user_id = ''u1'', m_name = ''NETFLIX.COM'',
                          m_raw_names = [''NETFLIX.COM'']\<rparr>],
           merchant_aliases = [\<lparr>a_merchant_id = 0, a_raw_name = ''NETFLIX.COM'', a_user_id = ''u1''\<rparr>],
           next_id = 1\<rparr>)"
    by (simp add: findOrCreateMerchant_def single_def insert_merchant_def upsert_alias_def Let_def)
  from C5_resolution_idempotent [OF u, of "\<lambda>n. n" "\<lambda>ns n. ns @ [n]" "''u1''" "''NETFLIX.COM''"]
  obtain mid s1 where
    "findOrCreateMerchant (\<lambda>n. n) (\<lambda>ns n. ns @ [n]) ?s ''u1'' ''NETFLIX.COM'' = (Inr mid, s1)"
    "findOrCreateMerchant (\<lambda>n. n) (\<lambda>ns n. ns @ [n]) s1 ''u1'' ''NETFLIX.COM'' = (Inr mid, s1)"
    by blast
  with first u show ?thesis by simp
qed

end
